theory Spec2Isabelle
  imports Complex_Main "HOL-Library.Word" "HOL-Library.Sublist" "HOL-Library.Finite_Map"
    "HOL-Library.List_Lexorder"
begin

unbundle bit_operations_syntax

chapter \<open>The model\<close>

section \<open>Circuit breaker (package circuit)\<close>

text \<open>
  The breaker of \<^verbatim>\<open>circuit.Breaker\<close>. The counters and thresholds are Go \<^verbatim>\<open>int32\<close>
  values, modelled as integers; an increment wraps around as \<^verbatim>\<open>atomic.AddInt32\<close> does
  (\<open>wrap32\<close>). A \<^verbatim>\<open>time.Time\<close> is an integer number of nanoseconds, a \<^verbatim>\<open>time.Duration\<close>
  likewise; \<^verbatim>\<open>time.Since(t)\<close> at time \<open>now\<close> is \<open>now - t\<close>.
\<close>

definition wrap32 :: "int \<Rightarrow> int" where
  "wrap32 x = (x + 2 ^ 31) mod 2 ^ 32 - 2 ^ 31"

datatype State = Closed | Open | HalfOpen

record Breaker =
  state :: State
  failures :: int
  successCount :: int
  lastFailTime :: int
  maxFailures :: int
  resetTimeout :: int
  successThresh :: int

text \<open>
  The errors \<^verbatim>\<open>Call\<close> can return: the dedicated short-circuit error, the two wrapping
  errors of \<^verbatim>\<open>recordFailure\<close>, and the guarded function's own error passed through (an
  error of the guarded function is its message).
\<close>

datatype call_error =
    CircuitOpen
  | OpenAfterFailedRecovery string
  | OpenAfterFailures int string
  | Passed string

definition New :: "int \<Rightarrow> int \<Rightarrow> int \<Rightarrow> int \<Rightarrow> Breaker" where
  "New maxF resetT successT zeroTime =
     \<lparr> state = Closed, failures = 0, successCount = 0, lastFailTime = zeroTime,
       maxFailures = maxF, resetTimeout = resetT,
       successThresh = (if successT \<le> 0 then 1 else successT) \<rparr>"

definition recordFailure :: "Breaker \<Rightarrow> string \<Rightarrow> int \<Rightarrow> call_error option \<times> Breaker" where
  "recordFailure b err now =
     (let b1 = b\<lparr> failures := wrap32 (failures b + 1), lastFailTime := now \<rparr>
      in if state b1 = HalfOpen then (Some (OpenAfterFailedRecovery err), b1\<lparr> state := Open \<rparr>)
         else if maxFailures b1 \<le> failures b1
           then (Some (OpenAfterFailures (maxFailures b1) err), b1\<lparr> state := Open \<rparr>)
         else (Some (Passed err), b1))"

definition recordSuccess :: "Breaker \<Rightarrow> call_error option \<times> Breaker" where
  "recordSuccess b =
     (if state b = HalfOpen then
        (let count = wrap32 (successCount b + 1); b1 = b\<lparr> successCount := count \<rparr>
         in if successThresh b1 \<le> count
            then (None, b1\<lparr> state := Closed, failures := 0, successCount := 0 \<rparr>)
            else (None, b1))
      else (None, b\<lparr> failures := 0 \<rparr>))"

text \<open>
  Phase 1 of \<^verbatim>\<open>Call\<close>, under the lock: either the short-circuit error, or the breaker
  as it is when the lock is released (an expired \<open>Open\<close> has become \<open>HalfOpen\<close> with both
  counters stored as 0). The snapshot \<^verbatim>\<open>currentState\<close> is the state of that breaker.
\<close>

definition Call_prepare :: "Breaker \<Rightarrow> int \<Rightarrow> Breaker option" where
  "Call_prepare b now =
     (if state b = Open then
        (if resetTimeout b < now - lastFailTime b
         then Some (b\<lparr> state := HalfOpen, successCount := 0, failures := 0 \<rparr>)
         else None)
      else Some b)"

text \<open>
  Phase 3 of \<^verbatim>\<open>Call\<close>, under the lock again: \<open>b\<close> is the breaker as found then, \<open>cur\<close>
  the snapshot of phase 1, \<open>err\<close> the result of the guarded function, \<open>now\<close> the
  \<^verbatim>\<open>time.Now()\<close> of \<^verbatim>\<open>recordFailure\<close>.
\<close>

definition Call_record :: "Breaker \<Rightarrow> State \<Rightarrow> string option \<Rightarrow> int \<Rightarrow> call_error option \<times> Breaker" where
  "Call_record b cur err now =
     (if state b \<noteq> cur then (map_option Passed err, b)
      else (case err of Some e \<Rightarrow> recordFailure b e now | None \<Rightarrow> recordSuccess b))"

text \<open>
  \<^verbatim>\<open>Call\<close>. The guarded function runs without the lock: \<open>fn\<close> maps the breaker it starts
  from to its error result and to the breaker phase 3 finds (the same one when no other
  goroutine touched it). The last component of the result tells whether \<open>fn\<close> was run.
\<close>

definition Call :: "Breaker \<Rightarrow> int \<Rightarrow> (Breaker \<Rightarrow> string option \<times> Breaker) \<Rightarrow> int
    \<Rightarrow> call_error option \<times> Breaker \<times> bool" where
  "Call b now1 fn now2 =
     (case Call_prepare b now1 of
        None \<Rightarrow> (Some CircuitOpen, b, False)
      | Some b1 \<Rightarrow>
          (let currentState = state b1;
               (err, b2) = fn b1;
               (res, b3) = Call_record b2 currentState err now2
           in (res, b3, True)))"

text \<open>A guarded function that fails (or succeeds) and leaves the breaker alone.\<close>

definition failing :: "string \<Rightarrow> Breaker \<Rightarrow> string option \<times> Breaker" where
  "failing e b = (Some e, b)"

definition succeeding :: "Breaker \<Rightarrow> string option \<times> Breaker" where
  "succeeding b = (None, b)"

text \<open>\<open>n\<close> calls in a row, each at time \<open>now\<close>, each running \<open>fn\<close>.\<close>

fun calls :: "nat \<Rightarrow> (Breaker \<Rightarrow> string option \<times> Breaker) \<Rightarrow> int \<Rightarrow> Breaker \<Rightarrow> Breaker" where
  "calls 0 fn now b = b"
| "calls (Suc n) fn now b = calls n fn now (fst (snd (Call b now fn now)))"

section \<open>Upstream pool (package relay)\<close>






text \<open>Go's \<^verbatim>\<open>%\<close> on integers truncates towards zero.\<close>

definition go_rem :: "int \<Rightarrow> int \<Rightarrow> int" where
  "go_rem a b = sgn a * (\<bar>a\<bar> mod \<bar>b\<bar>)"














section \<open>Retry (package retry)\<close>

text \<open>
  \<^verbatim>\<open>retry.Config\<close>. \<^verbatim>\<open>MaxAttempts\<close> is a Go \<^verbatim>\<open>int\<close>, the delays are \<^verbatim>\<open>time.Duration\<close> values in
  nanoseconds. \<^verbatim>\<open>Multiplier\<close> and the jitter fraction are \<^verbatim>\<open>float64\<close> values, idealised as
  real numbers; the conversion \<^verbatim>\<open>time.Duration(x)\<close> of a float truncates towards zero
  (\<open>go_trunc\<close>). For a float whose truncation is outside the 64-bit range Go leaves the
  result to the platform; \<open>go_trunc\<close> gives what amd64 gives, the smallest \<^verbatim>\<open>int64\<close>, so
  that the cap by \<^verbatim>\<open>MaxDelay\<close> is skipped there, as in the source. Nothing proved below
  depends on the rounding of floats.
\<close>

record Config =
  MaxAttempts :: int
  InitialDelay :: int
  MaxDelay :: int
  Multiplier :: real

definition DefaultConfig :: Config where
  "DefaultConfig =
     \<lparr> MaxAttempts = 3, InitialDelay = 1000000000, MaxDelay = 30000000000, Multiplier = 2 \<rparr>"

definition go_trunc :: "real \<Rightarrow> int" where
  "go_trunc x =
     (let t = (if 0 \<le> x then \<lfloor>x\<rfloor> else \<lceil>x\<rceil>)
      in if - (2 ^ 63) \<le> t \<and> t < 2 ^ 63 then t else - (2 ^ 63))"

text \<open>
  What a retry run meets: whether the context is found done at the check before attempt
  \<open>k\<close>, whether it is done before the timer fires in the wait after attempt \<open>k\<close>, and the
  number \<^verbatim>\<open>rand.Float64()\<close> returns for the jitter of that wait.
\<close>

record retry_env =
  done_before :: "nat \<Rightarrow> bool"
  done_in_wait :: "nat \<Rightarrow> bool"
  rand_float :: "nat \<Rightarrow> real"

text \<open>
  The errors of a retry run; \<open>MaxRetriesExceeded n e\<close> wraps the last error of the guarded
  function (\<open>None\<close> when \<^verbatim>\<open>lastErr\<close> is still \<^verbatim>\<open>nil\<close>).
\<close>

datatype retry_error = RetryCancelled | MaxRetriesExceeded int "string option"

text \<open>
  The result of a run: the error returned (\<open>None\<close> for \<^verbatim>\<open>nil\<close>), how many times the guarded
  function was invoked, and the waits that ran to their end. The guarded function is a
  closure: \<open>fn k\<close> is what its invocation number \<open>k\<close> (from 0) returns.
\<close>

type_synonym retry_result = "retry_error option \<times> nat \<times> int list"

text \<open>\<^verbatim>\<open>nextDelay\<close>: the exponential backoff step shared by both loops.\<close>

definition nextDelay :: "Config \<Rightarrow> int \<Rightarrow> int" where
  "nextDelay cfg delay =
     (let n = go_trunc (real_of_int delay * Multiplier cfg)
      in if MaxDelay cfg < n then MaxDelay cfg else n)"

text \<open>The loop of \<^verbatim>\<open>Do\<close>, from attempt \<open>attempt\<close> on.\<close>

function Do_loop :: "Config \<Rightarrow> retry_env \<Rightarrow> (nat \<Rightarrow> string option) \<Rightarrow> int \<Rightarrow> int
    \<Rightarrow> string option \<Rightarrow> nat \<Rightarrow> int list \<Rightarrow> retry_result" where
  "Do_loop cfg env fn attempt delay lastErr invoked waits =
     (if attempt < MaxAttempts cfg then
        (if done_before env (nat attempt) then (Some RetryCancelled, invoked, waits)
         else
           (case fn invoked of
              None \<Rightarrow> (None, Suc invoked, waits)
            | Some err \<Rightarrow>
                (if attempt = MaxAttempts cfg - 1
                 then (Some (MaxRetriesExceeded (MaxAttempts cfg) (Some err)), Suc invoked, waits)
                 else if done_in_wait env (nat attempt)
                 then (Some RetryCancelled, Suc invoked, waits)
                 else Do_loop cfg env fn (attempt + 1) (nextDelay cfg delay) (Some err)
                        (Suc invoked) (waits @ [delay]))))
      else (Some (MaxRetriesExceeded (MaxAttempts cfg) lastErr), invoked, waits))"
  by pat_completeness auto
termination
  by (relation "measure (\<lambda>(cfg, env, fn, attempt, delay, lastErr, invoked, waits).
        nat (MaxAttempts cfg - attempt))") auto

declare Do_loop.simps [simp del]

text \<open>\<^verbatim>\<open>Do\<close>: the four substitutions of defaults, then the loop.\<close>

definition Do :: "Config \<Rightarrow> retry_env \<Rightarrow> (nat \<Rightarrow> string option) \<Rightarrow> retry_result" where
  "Do cfg0 env fn =
     (let cfg1 = (if MaxAttempts cfg0 \<le> 0 then cfg0\<lparr> MaxAttempts := 3 \<rparr> else cfg0);
          cfg2 = (if InitialDelay cfg1 \<le> 0 then cfg1\<lparr> InitialDelay := 1000000000 \<rparr> else cfg1);
          cfg3 = (if MaxDelay cfg2 \<le> 0 then cfg2\<lparr> MaxDelay := 30000000000 \<rparr> else cfg2);
          cfg = (if Multiplier cfg3 \<le> 0 then cfg3\<lparr> Multiplier := 2 \<rparr> else cfg3)
      in Do_loop cfg env fn 0 (InitialDelay cfg) None 0 [])"

text \<open>
  The wait of the jitter variant: \<^verbatim>\<open>delay + jitterAmount\<close>, or \<^verbatim>\<open>delay\<close> when that is
  negative.
\<close>

definition actualDelay :: "real \<Rightarrow> real \<Rightarrow> int \<Rightarrow> int" where
  "actualDelay jitterFraction r delay =
     (let jitter = go_trunc (real_of_int delay * jitterFraction);
          jitterAmount = go_trunc (r * real_of_int (jitter * 2) - real_of_int jitter);
          d = delay + jitterAmount
      in if d < 0 then delay else d)"

text \<open>The loop of \<^verbatim>\<open>DoWithJitter\<close>.\<close>

function DoWithJitter_loop :: "Config \<Rightarrow> real \<Rightarrow> retry_env \<Rightarrow> (nat \<Rightarrow> string option) \<Rightarrow> int
    \<Rightarrow> int \<Rightarrow> string option \<Rightarrow> nat \<Rightarrow> int list \<Rightarrow> retry_result" where
  "DoWithJitter_loop cfg jf env fn attempt delay lastErr invoked waits =
     (if attempt < MaxAttempts cfg then
        (if done_before env (nat attempt) then (Some RetryCancelled, invoked, waits)
         else
           (case fn invoked of
              None \<Rightarrow> (None, Suc invoked, waits)
            | Some err \<Rightarrow>
                (if attempt = MaxAttempts cfg - 1
                 then (Some (MaxRetriesExceeded (MaxAttempts cfg) (Some err)), Suc invoked, waits)
                 else if done_in_wait env (nat attempt)
                 then (Some RetryCancelled, Suc invoked, waits)
                 else DoWithJitter_loop cfg jf env fn (attempt + 1) (nextDelay cfg delay)
                        (Some err) (Suc invoked)
                        (waits @ [actualDelay jf (rand_float env (nat attempt)) delay]))))
      else (Some (MaxRetriesExceeded (MaxAttempts cfg) lastErr), invoked, waits))"
  by pat_completeness auto
termination
  by (relation "measure (\<lambda>(cfg, jf, env, fn, attempt, delay, lastErr, invoked, waits).
        nat (MaxAttempts cfg - attempt))") auto

declare DoWithJitter_loop.simps [simp del]

text \<open>
  \<^verbatim>\<open>DoWithJitter\<close>: the jitter fraction is clamped; the configuration is used as given.
\<close>

definition DoWithJitter :: "Config \<Rightarrow> real \<Rightarrow> retry_env \<Rightarrow> (nat \<Rightarrow> string option)
    \<Rightarrow> retry_result" where
  "DoWithJitter cfg jitterFraction env fn =
     (let jf = (if jitterFraction < 0 \<or> 1 < jitterFraction then 1 / 10 else jitterFraction)
      in DoWithJitter_loop cfg jf env fn 0 (InitialDelay cfg) None 0 [])"

text \<open>A context that is never cancelled, and a guarded function that always fails.\<close>

definition never_cancelled :: retry_env where
  "never_cancelled =
     \<lparr> done_before = (\<lambda>k. False), done_in_wait = (\<lambda>k. False), rand_float = (\<lambda>k. 1 / 2) \<rparr>"

definition always_failing :: "nat \<Rightarrow> string option" where
  "always_failing k = Some ''persistent error''"

definition invalid_config :: Config where
  "invalid_config = \<lparr> MaxAttempts = 0, InitialDelay = 0, MaxDelay = 0, Multiplier = 0 \<rparr>"

section \<open>Bytes, readers and connections\<close>

type_synonym byte = "8 word"
type_synonym bytes = "8 word list"

text \<open>
  The errors of package \<^verbatim>\<open>rtmp\<close> and of the readers and writers under it. \<open>EOF\<close> and
  \<open>ErrUnexpectedEOF\<close> are those of package \<^verbatim>\<open>io\<close>; \<open>ErrWriteFailed\<close> stands for the error
  of a connection that takes no more bytes; \<open>ErrPanic\<close> for a run-time panic of a slice
  expression out of range.
\<close>

datatype rtmp_error =
    EOF
  | ErrUnexpectedEOF
  | ErrWriteFailed
  | ErrPanic
  | ErrInvalidClientVersion
  | ErrInvalidServerVersion
  | ErrInvalidMarker byte
  | ErrEndObject
  | ErrValueLimit
  | ErrStringTooLong
  | ErrObjectKeyLimit
  | ErrOutOfFuel

text \<open>
  An \<^verbatim>\<open>io.Reader\<close> over a finite input: the bytes not yet read, and a copy of every byte
  read so far (what an \<^verbatim>\<open>io.TeeReader\<close> over it writes to its buffer; a plain reader
  ignores it). The input ends where the list ends.
\<close>

record Reader =
  pending :: bytes
  teed :: bytes

text \<open>
  \<^verbatim>\<open>io.ReadFull(r, buf)\<close> for a buffer of \<open>n\<close> bytes: nothing is read for an empty buffer;
  \<open>EOF\<close> when no byte is left, \<open>ErrUnexpectedEOF\<close> when some but fewer than \<open>n\<close> are (they
  are consumed); else the next \<open>n\<close> bytes.
\<close>

definition ReadFull :: "nat \<Rightarrow> Reader \<Rightarrow> (rtmp_error + bytes) \<times> Reader" where
  "ReadFull n rd =
     (if n = 0 then (Inr [], rd)
      else if pending rd = [] then (Inl EOF, rd)
      else if length (pending rd) < n
        then (Inl ErrUnexpectedEOF, rd\<lparr> pending := [], teed := teed rd @ pending rd \<rparr>)
      else (Inr (take n (pending rd)),
            rd\<lparr> pending := drop n (pending rd), teed := teed rd @ take n (pending rd) \<rparr>))"

text \<open>
  A connection (\<^verbatim>\<open>net.Conn\<close>, an \<^verbatim>\<open>io.ReadWriter\<close>): the bytes the peer has sent and that
  are not yet read, every byte written so far, in order, and how many more bytes the
  connection takes before a write fails (\<open>None\<close>: it never fails).
\<close>

record Conn =
  incoming :: bytes
  written :: bytes
  takes :: "nat option"

definition readAll :: "nat \<Rightarrow> Conn \<Rightarrow> (rtmp_error + bytes) \<times> Conn" where
  "readAll n c =
     (case ReadFull n \<lparr> pending = incoming c, teed = [] \<rparr> of
        (res, rd) \<Rightarrow> (res, c\<lparr> incoming := pending rd \<rparr>))"

text \<open>
  \<^verbatim>\<open>writeAll\<close>: \<^verbatim>\<open>Write\<close> until the buffer is empty or a write fails. A \<^verbatim>\<open>Write\<close> of a
  connection writes all it is given unless it fails, so the loop is one step: either
  everything is written, or the bytes the connection still takes are written and the
  error is returned.
\<close>

definition writeAll :: "bytes \<Rightarrow> Conn \<Rightarrow> (rtmp_error + unit) \<times> Conn" where
  "writeAll buf c =
     (case takes c of
        None \<Rightarrow> (Inr (), c\<lparr> written := written c @ buf \<rparr>)
      | Some k \<Rightarrow>
          (if length buf \<le> k
           then (Inr (), c\<lparr> written := written c @ buf, takes := Some (k - length buf) \<rparr>)
           else (Inl ErrWriteFailed,
                 c\<lparr> written := written c @ take k buf, takes := Some 0 \<rparr>)))"

text \<open>Big-endian and little-endian integers of package \<^verbatim>\<open>encoding/binary\<close>.\<close>

definition be16 :: "16 word \<Rightarrow> bytes" where
  "be16 v = [ucast (drop_bit 8 v), ucast v]"

definition be32 :: "32 word \<Rightarrow> bytes" where
  "be32 v = [ucast (drop_bit 24 v), ucast (drop_bit 16 v), ucast (drop_bit 8 v), ucast v]"

definition be64 :: "64 word \<Rightarrow> bytes" where
  "be64 v = [ucast (drop_bit 56 v), ucast (drop_bit 48 v), ucast (drop_bit 40 v),
             ucast (drop_bit 32 v), ucast (drop_bit 24 v), ucast (drop_bit 16 v),
             ucast (drop_bit 8 v), ucast v]"

definition uint16_be :: "bytes \<Rightarrow> 16 word" where
  "uint16_be b = push_bit 8 (ucast (b ! 0)) OR ucast (b ! 1)"

definition uint32_be :: "bytes \<Rightarrow> 32 word" where
  "uint32_be b = push_bit 24 (ucast (b ! 0)) OR push_bit 16 (ucast (b ! 1))
                 OR push_bit 8 (ucast (b ! 2)) OR ucast (b ! 3)"

definition uint32_le :: "bytes \<Rightarrow> 32 word" where
  "uint32_le b = ucast (b ! 0) OR push_bit 8 (ucast (b ! 1))
                 OR push_bit 16 (ucast (b ! 2)) OR push_bit 24 (ucast (b ! 3))"

definition uint64_be :: "bytes \<Rightarrow> 64 word" where
  "uint64_be b = push_bit 56 (ucast (b ! 0)) OR push_bit 48 (ucast (b ! 1))
                 OR push_bit 40 (ucast (b ! 2)) OR push_bit 32 (ucast (b ! 3))
                 OR push_bit 24 (ucast (b ! 4)) OR push_bit 16 (ucast (b ! 5))
                 OR push_bit 8 (ucast (b ! 6)) OR ucast (b ! 7)"

definition bigUint24 :: "bytes \<Rightarrow> 32 word" where
  "bigUint24 b = push_bit 16 (ucast (b ! 0)) OR push_bit 8 (ucast (b ! 1)) OR ucast (b ! 2)"

text \<open>
  Go's \<^verbatim>\<open>copy(dst[off:], src)\<close> for \<open>off \<le> length dst\<close>: as many bytes of \<open>src\<close> as fit
  replace those of \<open>dst\<close> from \<open>off\<close> on.
\<close>

definition copy_at :: "bytes \<Rightarrow> nat \<Rightarrow> bytes \<Rightarrow> bytes" where
  "copy_at dst off src =
     take off dst @ take (length dst - off) src @ drop (off + length src) dst"

section \<open>RTMP handshake (package rtmp)\<close>

text \<open>
  \<^verbatim>\<open>HandshakeOptions\<close>: the clock and the source of random bytes. \<open>Now k\<close> is what the
  call number \<open>k\<close> (from 0) of \<^verbatim>\<open>nowFn\<close> within one handshake returns; \<open>Rand\<close> is the bytes
  the random reader delivers (it fails where they end). The defaults of \<^verbatim>\<open>defaults\<close>,
  the system clock and \<^verbatim>\<open>crypto/rand\<close>, are values of this record too.
\<close>

record HandshakeOptions =
  Now :: "nat \<Rightarrow> 32 word"
  Rand :: bytes

text \<open>
  The digest helpers and keys of the complex handshake are not among the repository's
  files given here; the functions that use them take them as a parameter.
\<close>

record DigestOps =
  getDigestOffset0 :: "bytes \<Rightarrow> int"
  getDigestOffset1 :: "bytes \<Rightarrow> int"
  calcDigest :: "bytes \<Rightarrow> bytes \<Rightarrow> int \<Rightarrow> bytes"
  calcHMAC :: "bytes \<Rightarrow> bytes \<Rightarrow> bytes"
  GenuineFPKey :: bytes
  GenuineFMSKey :: bytes

definition versionByte :: byte where
  "versionByte = 3"

definition handshakeSize :: nat where
  "handshakeSize = 1536"

definition digestOffset :: "DigestOps \<Rightarrow> bytes \<Rightarrow> int \<Rightarrow> int" where
  "digestOffset ops packet scheme =
     (if scheme = 0 then go_rem (getDigestOffset0 ops packet) 728 + 12
      else go_rem (getDigestOffset1 ops packet) 728 + 776)"

text \<open>
  \<^verbatim>\<open>validateDigest\<close>: \<open>Inr (Some digest)\<close> when the digest in the packet is the expected
  one, \<open>Inr None\<close> when it is not; the slice \<^verbatim>\<open>packet[offset:offset+32]\<close> panics for a
  negative offset.
\<close>

definition validateDigest :: "DigestOps \<Rightarrow> bytes \<Rightarrow> int \<Rightarrow> bytes \<Rightarrow> rtmp_error + bytes option" where
  "validateDigest ops packet scheme key =
     (let offset = digestOffset ops packet scheme
      in if int (length packet) < offset + 32 then Inr None
         else
           (let digest = calcDigest ops packet key offset
            in if offset < 0 then Inl ErrPanic
               else if digest = take 32 (drop (nat offset) packet) then Inr (Some digest)
               else Inr None))"

text \<open>
  A handshake packet C1 or S1 of the simple scheme: the timestamp, four zero bytes, and
  1528 random bytes.
\<close>

definition simplePacket :: "32 word \<Rightarrow> bytes \<Rightarrow> bytes" where
  "simplePacket t random = be32 t @ [0, 0, 0, 0] @ random"

definition simpleServerResponse :: "Conn \<Rightarrow> bytes \<Rightarrow> HandshakeOptions \<Rightarrow> (rtmp_error + unit) \<times> Conn" where
  "simpleServerResponse rw c1 opts =
     (case ReadFull (handshakeSize - 8) \<lparr> pending = Rand opts, teed = [] \<rparr> of
        (Inl e, rnd) \<Rightarrow> (Inl e, rw)
      | (Inr random, rnd) \<Rightarrow>
          (let s1 = simplePacket (Now opts 0) random
           in if length c1 < 4 then (Inl ErrPanic, rw)
              else
                (let s2 = copy_at (copy_at (copy_at (replicate handshakeSize 0) 0 c1) 0
                            (be32 (Now opts 1))) 4 (take 4 c1)
                 in case writeAll [versionByte] rw of
                      (Inl e, rw1) \<Rightarrow> (Inl e, rw1)
                    | (Inr u1, rw1) \<Rightarrow>
                        (case writeAll s1 rw1 of
                           (Inl e, rw2) \<Rightarrow> (Inl e, rw2)
                         | (Inr u2, rw2) \<Rightarrow>
                             (case writeAll s2 rw2 of
                                (Inl e, rw3) \<Rightarrow> (Inl e, rw3)
                              | (Inr u3, rw3) \<Rightarrow>
                                  (case readAll handshakeSize rw3 of
                                     (Inl e, rw4) \<Rightarrow> (Inl e, rw4)
                                   | (Inr c2, rw4) \<Rightarrow> (Inr (), rw4)))))))"

definition complexServerResponse :: "DigestOps \<Rightarrow> Conn \<Rightarrow> bytes \<Rightarrow> int \<Rightarrow> bytes \<Rightarrow> HandshakeOptions
    \<Rightarrow> (rtmp_error + unit) \<times> Conn" where
  "complexServerResponse ops rw c1 scheme c1Digest opts =
     (case writeAll [versionByte] rw of
        (Inl e, rw1) \<Rightarrow> (Inl e, rw1)
      | (Inr u1, rw1) \<Rightarrow>
          (case ReadFull (handshakeSize - 8) \<lparr> pending = Rand opts, teed = [] \<rparr> of
             (Inl e, rnd) \<Rightarrow> (Inl e, rw1)
           | (Inr random, rnd) \<Rightarrow>
               (let s1a = be32 (Now opts 0) @ [1, 0, 5, 4] @ random;
                    offset = digestOffset ops s1a scheme;
                    digestS1 = calcDigest ops s1a (GenuineFMSKey ops) offset
                in if offset < 0 \<or> int handshakeSize < offset then (Inl ErrPanic, rw1)
                   else
                     (let s1 = copy_at s1a (nat offset) digestS1
                      in case writeAll s1 rw1 of
                           (Inl e, rw2) \<Rightarrow> (Inl e, rw2)
                         | (Inr u2, rw2) \<Rightarrow>
                             (case ReadFull handshakeSize rnd of
                                (Inl e, rnd2) \<Rightarrow> (Inl e, rw2)
                              | (Inr s2a, rnd2) \<Rightarrow>
                                  (let tempKey = calcHMAC ops (GenuineFMSKey ops) c1Digest;
                                       digestS2 = calcHMAC ops tempKey (take (handshakeSize - 32) s2a);
                                       s2 = copy_at s2a (handshakeSize - 32) digestS2
                                   in case writeAll s2 rw2 of
                                        (Inl e, rw3) \<Rightarrow> (Inl e, rw3)
                                      | (Inr u3, rw3) \<Rightarrow>
                                          (case readAll handshakeSize rw3 of
                                             (Inl e, rw4) \<Rightarrow> (Inl e, rw4)
                                           | (Inr c2, rw4) \<Rightarrow> (Inr (), rw4))))))))"

text \<open>
  \<^verbatim>\<open>ServerHandshake\<close>: C0 and C1 are read, the scheme is detected (a C1 whose bytes 4 to 7
  are zero is simple; else scheme 1, then scheme 0 is tried), and the response of the
  scheme found is run.
\<close>

definition ServerHandshake :: "DigestOps \<Rightarrow> Conn \<Rightarrow> HandshakeOptions \<Rightarrow> (rtmp_error + unit) \<times> Conn" where
  "ServerHandshake ops rw opts =
     (case readAll 1 rw of
        (Inl e, rw1) \<Rightarrow> (Inl e, rw1)
      | (Inr c0, rw1) \<Rightarrow>
          (if c0 ! 0 \<noteq> versionByte then (Inl ErrInvalidClientVersion, rw1)
           else
             (case readAll handshakeSize rw1 of
                (Inl e, rw2) \<Rightarrow> (Inl e, rw2)
              | (Inr c1, rw2) \<Rightarrow>
                  (let isSimple = (c1 ! 4 = 0 \<and> c1 ! 5 = 0 \<and> c1 ! 6 = 0 \<and> c1 ! 7 = 0)
                   in if isSimple then simpleServerResponse rw2 c1 opts
                      else
                        (case validateDigest ops c1 1 (GenuineFPKey ops) of
                           Inl e \<Rightarrow> (Inl e, rw2)
                         | Inr (Some digest) \<Rightarrow> complexServerResponse ops rw2 c1 1 digest opts
                         | Inr None \<Rightarrow>
                             (case validateDigest ops c1 0 (GenuineFPKey ops) of
                                Inl e \<Rightarrow> (Inl e, rw2)
                              | Inr (Some digest) \<Rightarrow> complexServerResponse ops rw2 c1 0 digest opts
                              | Inr None \<Rightarrow> simpleServerResponse rw2 c1 opts))))))"

definition simpleClientHandshake :: "Conn \<Rightarrow> HandshakeOptions \<Rightarrow> (rtmp_error + unit) \<times> Conn" where
  "simpleClientHandshake rw opts =
     (case ReadFull (handshakeSize - 8) \<lparr> pending = Rand opts, teed = [] \<rparr> of
        (Inl e, rnd) \<Rightarrow> (Inl e, rw)
      | (Inr random, rnd) \<Rightarrow>
          (let c1 = simplePacket (Now opts 0) random
           in case writeAll [versionByte] rw of
                (Inl e, rw1) \<Rightarrow> (Inl e, rw1)
              | (Inr u1, rw1) \<Rightarrow>
                  (case writeAll c1 rw1 of
                     (Inl e, rw2) \<Rightarrow> (Inl e, rw2)
                   | (Inr u2, rw2) \<Rightarrow>
                       (case readAll 1 rw2 of
                          (Inl e, rw3) \<Rightarrow> (Inl e, rw3)
                        | (Inr s0, rw3) \<Rightarrow>
                            (if s0 ! 0 \<noteq> versionByte then (Inl ErrInvalidServerVersion, rw3)
                             else
                               (case readAll handshakeSize rw3 of
                                  (Inl e, rw4) \<Rightarrow> (Inl e, rw4)
                                | (Inr s1, rw4) \<Rightarrow>
                                    (case readAll handshakeSize rw4 of
                                       (Inl e, rw5) \<Rightarrow> (Inl e, rw5)
                                     | (Inr s2, rw5) \<Rightarrow>
                                         (let c2 = copy_at (replicate handshakeSize 0) 0 s1
                                          in writeAll c2 rw5))))))))"

definition ClientHandshake :: "Conn \<Rightarrow> HandshakeOptions \<Rightarrow> (rtmp_error + unit) \<times> Conn" where
  "ClientHandshake rw opts = simpleClientHandshake rw opts"

text \<open>
  The two ends of the repository's handshake test: the client's clock says 1, the
  server's says 2, both random readers deliver zero bytes. \<open>test_C1\<close> and \<open>test_S1\<close> are
  the packets they then send first, \<open>test_S2\<close> the server's echo of \<open>test_C1\<close>.
\<close>

definition test_client_opts :: HandshakeOptions where
  "test_client_opts = \<lparr> Now = (\<lambda>k. 1), Rand = replicate 1536 0 \<rparr>"

definition test_server_opts :: HandshakeOptions where
  "test_server_opts = \<lparr> Now = (\<lambda>k. 2), Rand = replicate 1536 0 \<rparr>"

definition test_C1 :: bytes where
  "test_C1 = [0, 0, 0, 1] @ [0, 0, 0, 0] @ replicate 1528 0"

definition test_S1 :: bytes where
  "test_S1 = [0, 0, 0, 2] @ [0, 0, 0, 0] @ replicate 1528 0"

definition test_S2 :: bytes where
  "test_S2 = [0, 0, 0, 2] @ [0, 0, 0, 1] @ replicate 1528 0"

section \<open>Chunk stream reader (package rtmp)\<close>

text \<open>
  \<^verbatim>\<open>ChunkHeader\<close>, \<^verbatim>\<open>Message\<close>, \<^verbatim>\<open>StreamState\<close> and \<^verbatim>\<open>ChunkStream\<close>, with Go's \<^verbatim>\<open>uint8\<close> and
  \<^verbatim>\<open>uint32\<close> fields as words. \<^verbatim>\<open>StreamState.Partial\<close> is a pointer to the message being
  assembled (\<open>None\<close> for \<^verbatim>\<open>nil\<close>); the reader holds the only reference to it until the
  message is complete, so the model keeps the message inside the state. The map
  \<^verbatim>\<open>streams\<close> holds pointers to states that nothing else refers to: a map to the states
  themselves. The field \<^verbatim>\<open>r\<close> of \<^verbatim>\<open>ChunkStream\<close> is \<open>rdr\<close> here.
\<close>

record ChunkHeader =
  Fmt :: byte
  CSID :: "32 word"
  Timestamp :: "32 word"
  Length :: "32 word"
  TypeID :: byte
  StreamID :: "32 word"
  TimeDelta :: "32 word"

record Message =
  Header :: ChunkHeader
  Payload :: bytes
  bytesRead :: "32 word"

record StreamState =
  LastHeader :: ChunkHeader
  Partial :: "Message option"

record ChunkStream =
  rdr :: Reader
  rxChunkSize :: "32 word"
  txChunkSize :: "32 word"
  streams :: "32 word \<rightharpoonup> StreamState"

definition TypeSetChunkSize :: byte where
  "TypeSetChunkSize = 1"

definition DefaultChunkSize :: "32 word" where
  "DefaultChunkSize = 128"

text \<open>The zero values of Go for a header and for a \<^verbatim>\<open>StreamState\<close>.\<close>

definition zeroHeader :: ChunkHeader where
  "zeroHeader = \<lparr> Fmt = 0, CSID = 0, Timestamp = 0, Length = 0, TypeID = 0, StreamID = 0,
                  TimeDelta = 0 \<rparr>"

definition zeroState :: StreamState where
  "zeroState = \<lparr> LastHeader = zeroHeader, Partial = None \<rparr>"

definition NewChunkStream :: "Reader \<Rightarrow> ChunkStream" where
  "NewChunkStream rd =
     \<lparr> rdr = rd, rxChunkSize = DefaultChunkSize, txChunkSize = DefaultChunkSize,
       streams = Map.empty \<rparr>"

text \<open>
  \<^verbatim>\<open>readChunk\<close>, in the four steps its comments number. Step 1, the basic header: the
  format and the chunk stream id, the latter extended by one or two bytes when its six
  bits are 0 or 1.
\<close>

definition readBasicHeader :: "Reader \<Rightarrow> (rtmp_error + byte \<times> 32 word) \<times> Reader" where
  "readBasicHeader rd =
     (case ReadFull 1 rd of
        (Inl e, rd1) \<Rightarrow> (Inl e, rd1)
      | (Inr b, rd1) \<Rightarrow>
          (let h1 = b ! 0;
               fmtID = drop_bit 6 h1 AND 3;
               csID = (ucast (h1 AND 63) :: 32 word)
           in if csID = 0 then
                (case ReadFull 1 rd1 of
                   (Inl e, rd2) \<Rightarrow> (Inl e, rd2)
                 | (Inr h2, rd2) \<Rightarrow> (Inr (fmtID, 64 + ucast (h2 ! 0)), rd2))
              else if csID = 1 then
                (case ReadFull 2 rd1 of
                   (Inl e, rd2) \<Rightarrow> (Inl e, rd2)
                 | (Inr b2, rd2) \<Rightarrow>
                     (Inr (fmtID, 64 + ucast (b2 ! 0) + ucast (b2 ! 1) * 256), rd2))
              else (Inr (fmtID, csID), rd1)))"

text \<open>
  Step 2, the message header by format, starting from a copy of the state's last header.
\<close>

definition readHeaderFields :: "byte \<Rightarrow> 32 word \<Rightarrow> StreamState \<Rightarrow> Reader
    \<Rightarrow> (rtmp_error + ChunkHeader) \<times> Reader" where
  "readHeaderFields fmtID csID st rd =
     (let header = (LastHeader st)\<lparr> Fmt := fmtID, CSID := csID \<rparr>
      in if fmtID = 0 then
           (case ReadFull 11 rd of
              (Inl e, rd1) \<Rightarrow> (Inl e, rd1)
            | (Inr buf, rd1) \<Rightarrow>
                (Inr (header\<lparr> Timestamp := bigUint24 (take 3 buf),
                              Length := bigUint24 (take 3 (drop 3 buf)),
                              TypeID := buf ! 6,
                              StreamID := uint32_le (take 4 (drop 7 buf)),
                              TimeDelta := 0 \<rparr>), rd1))
         else if fmtID = 1 then
           (case ReadFull 7 rd of
              (Inl e, rd1) \<Rightarrow> (Inl e, rd1)
            | (Inr buf, rd1) \<Rightarrow>
                (Inr (header\<lparr> TimeDelta := bigUint24 (take 3 buf),
                              Length := bigUint24 (take 3 (drop 3 buf)),
                              TypeID := buf ! 6,
                              Timestamp := Timestamp (LastHeader st) + bigUint24 (take 3 buf) \<rparr>),
                 rd1))
         else if fmtID = 2 then
           (case ReadFull 3 rd of
              (Inl e, rd1) \<Rightarrow> (Inl e, rd1)
            | (Inr buf, rd1) \<Rightarrow>
                (Inr (header\<lparr> TimeDelta := bigUint24 (take 3 buf),
                              Timestamp := Timestamp (LastHeader st) + bigUint24 (take 3 buf) \<rparr>),
                 rd1))
         else if fmtID = 3 then
           (case Partial st of
              Some m \<Rightarrow> (Inr (Header m), rd)
            | None \<Rightarrow>
                (Inr (header\<lparr> TimeDelta := TimeDelta (LastHeader st),
                              Timestamp := Timestamp (LastHeader st) + TimeDelta (LastHeader st) \<rparr>),
                 rd))
         else (Inr header, rd))"

text \<open>
  Step 3, the extended timestamp: read when \<^verbatim>\<open>tsField\<close>, the header's delta for formats
  1 and 2 and the header's timestamp otherwise, is at least \<^verbatim>\<open>0xFFFFFF\<close>.
\<close>

definition readExtendedTimestamp :: "byte \<Rightarrow> StreamState \<Rightarrow> ChunkHeader \<Rightarrow> Reader
    \<Rightarrow> (rtmp_error + ChunkHeader) \<times> Reader" where
  "readExtendedTimestamp fmtID st header rd =
     (let tsField = (if fmtID = 1 \<or> fmtID = 2 then TimeDelta header else Timestamp header)
      in if 16777215 \<le> tsField then
           (case ReadFull 4 rd of
              (Inl e, rd1) \<Rightarrow> (Inl e, rd1)
            | (Inr b, rd1) \<Rightarrow>
                (let ext = uint32_be b
                 in if fmtID = 0 then (Inr (header\<lparr> Timestamp := ext \<rparr>), rd1)
                    else (Inr (header\<lparr> TimeDelta := ext,
                                       Timestamp := Timestamp (LastHeader st) + ext \<rparr>), rd1)))
         else (Inr header, rd))"

text \<open>
  Step 4, the payload, after the state's last header is set: up to \<^verbatim>\<open>rxChunkSize\<close> bytes
  of what the message still lacks are read into its buffer. The result is the completed
  message, or \<open>None\<close> when more chunks are needed. (A read that fails leaves the buffer
  as it was in the model; the source may have filled part of it.)
\<close>

definition readPayload :: "ChunkStream \<Rightarrow> 32 word \<Rightarrow> StreamState \<Rightarrow> ChunkHeader
    \<Rightarrow> (rtmp_error + Message option) \<times> ChunkStream" where
  "readPayload c csID st header =
     (let msg = (case Partial st of
                   Some m \<Rightarrow> m
                 | None \<Rightarrow> \<lparr> Header = header, Payload = replicate (unat (Length header)) 0,
                             bytesRead = 0 \<rparr>);
          st1 = st\<lparr> LastHeader := header, Partial := Some msg \<rparr>;
          remaining = Length (Header msg) - bytesRead msg;
          chunkLimit = rxChunkSize c;
          toRead = (if chunkLimit < remaining then chunkLimit else remaining);
          hi = bytesRead msg + toRead
      in if hi < bytesRead msg \<or> length (Payload msg) < unat hi
         then (Inl ErrPanic, c\<lparr> streams := (streams c)(csID \<mapsto> st1) \<rparr>)
         else
           (case ReadFull (unat toRead) (rdr c) of
              (Inl e, rd1) \<Rightarrow> (Inl e, c\<lparr> rdr := rd1, streams := (streams c)(csID \<mapsto> st1) \<rparr>)
            | (Inr data, rd1) \<Rightarrow>
                (let msg1 = msg\<lparr> Payload := copy_at (Payload msg) (unat (bytesRead msg)) data,
                                  bytesRead := hi \<rparr>
                 in if Length (Header msg1) \<le> bytesRead msg1
                    then (Inr (Some msg1),
                          c\<lparr> rdr := rd1,
                             streams := (streams c)(csID \<mapsto> st1\<lparr> Partial := None \<rparr>) \<rparr>)
                    else (Inr None,
                          c\<lparr> rdr := rd1,
                             streams := (streams c)(csID \<mapsto> st1\<lparr> Partial := Some msg1 \<rparr>) \<rparr>))))"

definition readChunk :: "ChunkStream \<Rightarrow> (rtmp_error + Message option) \<times> ChunkStream" where
  "readChunk c =
     (case readBasicHeader (rdr c) of
        (Inl e, rd1) \<Rightarrow> (Inl e, c\<lparr> rdr := rd1 \<rparr>)
      | (Inr (fmtID, csID), rd1) \<Rightarrow>
          (let st = (case streams c csID of None \<Rightarrow> zeroState | Some s \<Rightarrow> s);
               c1 = c\<lparr> rdr := rd1, streams := (streams c)(csID \<mapsto> st) \<rparr>
           in case readHeaderFields fmtID csID st rd1 of
                (Inl e, rd2) \<Rightarrow> (Inl e, c1\<lparr> rdr := rd2 \<rparr>)
              | (Inr header0, rd2) \<Rightarrow>
                  (case readExtendedTimestamp fmtID st header0 rd2 of
                     (Inl e, rd3) \<Rightarrow> (Inl e, c1\<lparr> rdr := rd3 \<rparr>)
                   | (Inr header, rd3) \<Rightarrow> readPayload (c1\<lparr> rdr := rd3 \<rparr>) csID st header)))"

text \<open>
  The interception of \<^verbatim>\<open>ReadMessage\<close>: a completed message of type 1 whose payload has
  at least 4 bytes sets \<^verbatim>\<open>rxChunkSize\<close> when its value passes the range check.
\<close>

definition intercept :: "ChunkStream \<Rightarrow> Message \<Rightarrow> ChunkStream" where
  "intercept c msg =
     (if TypeID (Header msg) = TypeSetChunkSize then
        (if 4 \<le> length (Payload msg) then
           (let newSize = uint32_be (Payload msg)
            in if 0 < newSize \<and> newSize < 2147483647 then c\<lparr> rxChunkSize := newSize \<rparr> else c)
         else c)
      else c)"

text \<open>
  \<^verbatim>\<open>ReadMessage\<close> reads chunks until one completes a message. Every chunk read without
  error consumes at least the byte of its basic header, so the loop ends on a finite
  input.
\<close>

lemma ReadFull_pending_le:
  "ReadFull n rd = (res, rd1) \<Longrightarrow> length (pending rd1) \<le> length (pending rd)"
  by (auto simp: ReadFull_def split: if_splits)

lemma ReadFull_pending_less:
  "ReadFull n rd = (Inr b, rd1) \<Longrightarrow> 0 < n \<Longrightarrow> length (pending rd1) < length (pending rd)"
  by (auto simp: ReadFull_def split: if_splits)

lemma readBasicHeader_pending_less:
  assumes "readBasicHeader rd = (Inr x, rd1)"
  shows "length (pending rd1) < length (pending rd)"
proof -
  obtain res0 rd0 where r0: "ReadFull 1 rd = (res0, rd0)" by (cases "ReadFull 1 rd")
  show ?thesis
  proof (cases res0)
    case (Inl e)
    with assms r0 show ?thesis by (simp add: readBasicHeader_def)
  next
    case (Inr b)
    with r0 have less: "length (pending rd0) < length (pending rd)"
      using ReadFull_pending_less [of 1 rd b rd0] by simp
    obtain res2 rd2 where r1: "ReadFull 1 rd0 = (res2, rd2)" by (cases "ReadFull 1 rd0")
    obtain res3 rd3 where r2: "ReadFull 2 rd0 = (res3, rd3)" by (cases "ReadFull 2 rd0")
    from ReadFull_pending_le [OF r1] ReadFull_pending_le [OF r2] less assms r0 Inr r1 r2
    show ?thesis
      by (auto simp: readBasicHeader_def Let_def split: if_splits sum.splits)
  qed
qed

lemma readHeaderFields_pending_le:
  "readHeaderFields f cs st rd = (res, rd1) \<Longrightarrow> length (pending rd1) \<le> length (pending rd)"
  by (auto simp: readHeaderFields_def Let_def split: if_splits sum.splits prod.splits option.splits
           dest: ReadFull_pending_le)

lemma readExtendedTimestamp_pending_le:
  "readExtendedTimestamp f st h rd = (res, rd1) \<Longrightarrow> length (pending rd1) \<le> length (pending rd)"
  by (auto simp: readExtendedTimestamp_def Let_def split: if_splits sum.splits prod.splits
           dest: ReadFull_pending_le)

lemma readPayload_pending_le:
  "readPayload c cs st h = (res, c1) \<Longrightarrow> length (pending (rdr c1)) \<le> length (pending (rdr c))"
  by (auto simp: readPayload_def Let_def split: if_splits sum.splits prod.splits
           dest: ReadFull_pending_le)

lemma readChunk_pending_less:
  assumes "readChunk c = (Inr m, c1)"
  shows "length (pending (rdr c1)) < length (pending (rdr c))"
proof -
  obtain res0 rd0 where r0: "readBasicHeader (rdr c) = (res0, rd0)"
    by (cases "readBasicHeader (rdr c)")
  show ?thesis
  proof (cases res0)
    case (Inl e)
    with assms r0 show ?thesis by (simp add: readChunk_def)
  next
    case (Inr x)
    obtain fmtID csID where x: "x = (fmtID, csID)" by (cases x)
    define st where "st = (case streams c csID of None \<Rightarrow> zeroState | Some s \<Rightarrow> s)"
    from r0 Inr have l0: "length (pending rd0) < length (pending (rdr c))"
      by (simp add: readBasicHeader_pending_less)
    obtain res1 rd1 where r1: "readHeaderFields fmtID csID st rd0 = (res1, rd1)"
      by (cases "readHeaderFields fmtID csID st rd0")
    note l1 = readHeaderFields_pending_le [OF r1]
    show ?thesis
    proof (cases res1)
      case (Inl e)
      with assms r0 Inr x r1 show ?thesis by (simp add: readChunk_def Let_def st_def)
    next
      case h0: (Inr header0)
      obtain res2 rd2 where r2: "readExtendedTimestamp fmtID st header0 rd1 = (res2, rd2)"
        by (cases "readExtendedTimestamp fmtID st header0 rd1")
      note l2 = readExtendedTimestamp_pending_le [OF r2]
      show ?thesis
      proof (cases res2)
        case (Inl e)
        with assms r0 Inr x r1 h0 r2 show ?thesis by (simp add: readChunk_def Let_def st_def)
      next
        case h: (Inr header)
        from assms r0 Inr x r1 h0 r2 h
        have "readPayload (c\<lparr> rdr := rd0, streams := (streams c)(csID \<mapsto> st) \<rparr>\<lparr> rdr := rd2 \<rparr>)
                csID st header = (Inr m, c1)"
          by (simp add: readChunk_def Let_def st_def)
        from readPayload_pending_le [OF this] l0 l1 l2 show ?thesis by simp
      qed
    qed
  qed
qed

function ReadMessage :: "ChunkStream \<Rightarrow> (rtmp_error + Message) \<times> ChunkStream" where
  "ReadMessage c =
     (case readChunk c of
        (Inl e, c1) \<Rightarrow> (Inl e, c1)
      | (Inr None, c1) \<Rightarrow> ReadMessage c1
      | (Inr (Some msg), c1) \<Rightarrow> (Inr msg, intercept c1 msg))"
  by pat_completeness auto

termination
proof (relation "measure (\<lambda>c. length (pending (rdr c)))")
  show "wf (measure (\<lambda>c. length (pending (rdr c))))" by simp
next
  fix c x c1 y
  assume "(x, c1) = readChunk c" and "x = Inr y"
  then have "readChunk c = (Inr y, c1)" by simp
  then show "(c1, c) \<in> measure (\<lambda>c. length (pending (rdr c)))"
    by (simp add: readChunk_pending_less)
qed

declare ReadMessage.simps [simp del]

text \<open>
  Inputs for the reader: a plain reader over given bytes; a \<^verbatim>\<open>SetChunkSize\<close> message of
  value \<open>v\<close> in one format-0 chunk on chunk stream 2; and two audio messages on chunk
  stream 4, the first in a format-0 chunk with the 3-byte timestamp \<open>ts\<close> and one byte of
  payload, the second of 129 bytes in a format-1 chunk with delta 1 (128 bytes) and a
  format-3 continuation chunk (1 byte), neither with an extended timestamp field.
\<close>

definition reader_of :: "bytes \<Rightarrow> Reader" where
  "reader_of bs = \<lparr> pending = bs, teed = [] \<rparr>"

definition set_chunk_size_input :: "32 word \<Rightarrow> bytes" where
  "set_chunk_size_input v = [2, 0, 0, 0, 0, 0, 4, 1, 0, 0, 0, 0] @ be32 v"

definition two_messages :: "bytes \<Rightarrow> bytes" where
  "two_messages ts =
     [4] @ ts @ [0, 0, 1, 8, 1, 0, 0, 0, 170]
     @ [68, 0, 0, 1, 0, 0, 129, 8] @ replicate 128 187
     @ [196, 204]"

section \<open>AMF0 codec (package rtmp)\<close>

text \<open>
  The values the decoder returns as \<^verbatim>\<open>interface{}\<close>: a \<^verbatim>\<open>float64\<close> (its 64 bits, as
  \<^verbatim>\<open>math.Float64bits\<close> gives them: the codec only moves the bits), a \<^verbatim>\<open>bool\<close>, a
  \<^verbatim>\<open>string\<close> (its bytes), a \<^verbatim>\<open>map[string]interface{}\<close> (a finite map) and \<^verbatim>\<open>nil\<close>. The
  encoder takes the same values; an \<^verbatim>\<open>int\<close>, which it converts to a number, and the
  types it skips are outside this type.
\<close>

datatype amf =
    AMFNumber "64 word"
  | AMFBoolean bool
  | AMFString bytes
  | AMFObject "(bytes, amf) fmap"
  | AMFNull

definition MarkerNumber :: byte where "MarkerNumber = 0"
definition MarkerBoolean :: byte where "MarkerBoolean = 1"
definition MarkerString :: byte where "MarkerString = 2"
definition MarkerObject :: byte where "MarkerObject = 3"
definition MarkerNull :: byte where "MarkerNull = 5"
definition MarkerECMAArray :: byte where "MarkerECMAArray = 8"
definition MarkerObjectEnd :: byte where "MarkerObjectEnd = 9"

lemmas marker_defs = MarkerNumber_def MarkerBoolean_def MarkerString_def MarkerObject_def
  MarkerNull_def MarkerECMAArray_def MarkerObjectEnd_def

text \<open>The limits; Go compares them with an \<^verbatim>\<open>int\<close> length, or with a \<^verbatim>\<open>uint16\<close>.\<close>

definition maxAMFValues :: int where "maxAMFValues = 1000"
definition maxAMFStringLen :: int where "maxAMFStringLen = 65535"
definition maxObjectKeys :: int where "maxObjectKeys = 500"

subsection \<open>Encoder\<close>

text \<open>
  The encoder writes to an \<^verbatim>\<open>io.Writer\<close>; the model gives the bytes written to a writer
  that takes them all (a \<^verbatim>\<open>bytes.Buffer\<close>). \<^verbatim>\<open>encodeString\<close> converts the length with
  \<^verbatim>\<open>uint16(len(s))\<close>, which keeps its low 16 bits, and writes every byte of the string.
\<close>

definition encodeNumber :: "64 word \<Rightarrow> bytes" where
  "encodeNumber n = MarkerNumber # be64 n"

definition encodeBoolean :: "bool \<Rightarrow> bytes" where
  "encodeBoolean b = [MarkerBoolean, if b then 1 else 0]"

definition encodeString :: "bytes \<Rightarrow> bytes" where
  "encodeString s = MarkerString # be16 (of_nat (length s)) @ s"

definition encodeNull :: bytes where
  "encodeNull = [MarkerNull]"

text \<open>
  \<^verbatim>\<open>encodeObject\<close>: the marker, then for every key in the order of \<^verbatim>\<open>sort.Strings\<close>
  (bytewise lexicographic) its length in 16 bits, its bytes and the encoding of its
  value, then \<^verbatim>\<open>00 00 09\<close>. The argument here is the map with its values already encoded.
\<close>

definition encodeObject :: "(bytes, bytes) fmap \<Rightarrow> bytes" where
  "encodeObject em =
     MarkerObject #
     concat (map (\<lambda>k. be16 (of_nat (length k)) @ k @ the (fmlookup em k))
                 (sorted_list_of_fset (fmdom em)))
     @ [0, 0, MarkerObjectEnd]"

primrec encodeValue :: "amf \<Rightarrow> bytes" where
  "encodeValue (AMFNumber n) = encodeNumber n"
| "encodeValue (AMFBoolean b) = encodeBoolean b"
| "encodeValue (AMFString s) = encodeString s"
| "encodeValue (AMFObject m) = encodeObject (fmmap encodeValue m)"
| "encodeValue AMFNull = encodeNull"

definition EncodeAMF0 :: "amf list \<Rightarrow> bytes" where
  "EncodeAMF0 values = concat (map encodeValue values)"

subsection \<open>Decoder\<close>

definition decodeNumber :: "Reader \<Rightarrow> (rtmp_error + 64 word) \<times> Reader" where
  "decodeNumber rd =
     (case ReadFull 8 rd of
        (Inl e, rd1) \<Rightarrow> (Inl e, rd1)
      | (Inr b, rd1) \<Rightarrow> (Inr (uint64_be b), rd1))"

definition decodeBoolean :: "Reader \<Rightarrow> (rtmp_error + bool) \<times> Reader" where
  "decodeBoolean rd =
     (case ReadFull 1 rd of
        (Inl e, rd1) \<Rightarrow> (Inl e, rd1)
      | (Inr b, rd1) \<Rightarrow> (Inr (b ! 0 \<noteq> 0), rd1))"

definition decodeString :: "Reader \<Rightarrow> (rtmp_error + bytes) \<times> Reader" where
  "decodeString rd =
     (case ReadFull 2 rd of
        (Inl e, rd1) \<Rightarrow> (Inl e, rd1)
      | (Inr lenBuf, rd1) \<Rightarrow>
          (let len = uint16_be lenBuf
           in if len = 0 then (Inr [], rd1)
              else if maxAMFStringLen < uint len then (Inl ErrStringTooLong, rd1)
              else (case ReadFull (unat len) rd1 of
                      (Inl e, rd2) \<Rightarrow> (Inl e, rd2)
                    | (Inr buf, rd2) \<Rightarrow> (Inr buf, rd2))))"

text \<open>
  \<^verbatim>\<open>DecodeAMF0Value\<close> and \<^verbatim>\<open>decodeObject\<close> (with \<^verbatim>\<open>decodeECMAArray\<close>, which skips the
  4-byte count and decodes an object) call each other, and the loop of \<^verbatim>\<open>decodeObject\<close>
  goes on from where the value it decoded ended. The recursion is on a bound \<open>n\<close> on
  the calls in flight, \<open>ErrOutOfFuel\<close> when it is reached; every call reads at least one
  byte before it calls another, so a bound above the number of bytes left is never
  reached (\<open>decodeValueN_fuel\<close> below), and that is the bound \<^verbatim>\<open>DecodeAMF0Value\<close> takes.
\<close>

fun decodeValueN :: "nat \<Rightarrow> Reader \<Rightarrow> (rtmp_error + amf) \<times> Reader"
  and decodeObjectN :: "nat \<Rightarrow> (bytes, amf) fmap \<Rightarrow> Reader
                         \<Rightarrow> (rtmp_error + (bytes, amf) fmap) \<times> Reader" where
  "decodeValueN 0 rd = (Inl ErrOutOfFuel, rd)"
| "decodeValueN (Suc n) rd =
     (case ReadFull 1 rd of
        (Inl e, rd1) \<Rightarrow> (Inl e, rd1)
      | (Inr marker, rd1) \<Rightarrow>
          if marker ! 0 = MarkerNumber then
            (case decodeNumber rd1 of
               (Inl e, rd2) \<Rightarrow> (Inl e, rd2)
             | (Inr x, rd2) \<Rightarrow> (Inr (AMFNumber x), rd2))
          else if marker ! 0 = MarkerBoolean then
            (case decodeBoolean rd1 of
               (Inl e, rd2) \<Rightarrow> (Inl e, rd2)
             | (Inr b, rd2) \<Rightarrow> (Inr (AMFBoolean b), rd2))
          else if marker ! 0 = MarkerString then
            (case decodeString rd1 of
               (Inl e, rd2) \<Rightarrow> (Inl e, rd2)
             | (Inr s, rd2) \<Rightarrow> (Inr (AMFString s), rd2))
          else if marker ! 0 = MarkerObject then
            (case decodeObjectN n fmempty rd1 of
               (Inl e, rd2) \<Rightarrow> (Inl e, rd2)
             | (Inr obj, rd2) \<Rightarrow> (Inr (AMFObject obj), rd2))
          else if marker ! 0 = MarkerNull then (Inr AMFNull, rd1)
          else if marker ! 0 = MarkerECMAArray then
            (case ReadFull 4 rd1 of
               (Inl e, rd2) \<Rightarrow> (Inl e, rd2)
             | (Inr countBuf, rd2) \<Rightarrow>
                 (case decodeObjectN n fmempty rd2 of
                    (Inl e, rd3) \<Rightarrow> (Inl e, rd3)
                  | (Inr obj, rd3) \<Rightarrow> (Inr (AMFObject obj), rd3)))
          else if marker ! 0 = MarkerObjectEnd then (Inl ErrEndObject, rd1)
          else (Inl (ErrInvalidMarker (marker ! 0)), rd1))"
| "decodeObjectN 0 obj rd = (Inl ErrOutOfFuel, rd)"
| "decodeObjectN (Suc n) obj rd =
     (if maxObjectKeys \<le> int (fcard (fmdom obj)) then (Inl ErrObjectKeyLimit, rd)
      else
        (case decodeString rd of
           (Inl e, rd1) \<Rightarrow> (Inl e, rd1)
         | (Inr key, rd1) \<Rightarrow>
             (case decodeValueN n rd1 of
                (Inl e, rd2) \<Rightarrow> if e = ErrEndObject then (Inr obj, rd2) else (Inl e, rd2)
              | (Inr val, rd2) \<Rightarrow> decodeObjectN n (fmupd key val obj) rd2)))"

definition DecodeAMF0Value :: "Reader \<Rightarrow> (rtmp_error + amf) \<times> Reader" where
  "DecodeAMF0Value rd = decodeValueN (Suc (length (pending rd))) rd"

text \<open>
  \<^verbatim>\<open>DecodeAMF0\<close>: the loop is \<open>DecodeAMF0_loop\<close> on the values decoded so far. The limit
  is checked before the next value is decoded; \<open>EOF\<close> from \<^verbatim>\<open>DecodeAMF0Value\<close> ends the
  loop with the values, any other error is returned.
\<close>

function DecodeAMF0_loop :: "amf list \<Rightarrow> Reader \<Rightarrow> (rtmp_error + amf list) \<times> Reader" where
  "DecodeAMF0_loop values rd =
     (if maxAMFValues \<le> int (length values) then (Inl ErrValueLimit, rd)
      else
        (case DecodeAMF0Value rd of
           (Inl e, rd1) \<Rightarrow> if e = EOF then (Inr values, rd1) else (Inl e, rd1)
         | (Inr v, rd1) \<Rightarrow> DecodeAMF0_loop (values @ [v]) rd1))"
  by pat_completeness auto

termination
  by (relation "measure (\<lambda>(values, rd). nat (maxAMFValues - int (length values)))")
     (auto simp: maxAMFValues_def)

declare DecodeAMF0_loop.simps [simp del]

definition DecodeAMF0 :: "Reader \<Rightarrow> (rtmp_error + amf list) \<times> Reader" where
  "DecodeAMF0 rd = DecodeAMF0_loop [] rd"

subsection \<open>Values within the limits of the wire format\<close>

text \<open>
  The values whose strings and keys have at most 65535 bytes, the largest length the
  16-bit length field holds, and whose objects, at every depth, have fewer than
  \<^verbatim>\<open>maxObjectKeys\<close> keys.
\<close>

primrec encodable :: "amf \<Rightarrow> bool" where
  "encodable (AMFNumber n) = True"
| "encodable (AMFBoolean b) = True"
| "encodable (AMFString s) = (length s \<le> 65535)"
| "encodable (AMFObject m) =
     (int (fcard (fmdom m)) < maxObjectKeys
      \<and> fBall (fmdom m) (\<lambda>k. length k \<le> 65535)
      \<and> fmpred (\<lambda>k ok. ok) (fmmap encodable m))"
| "encodable AMFNull = True"

text \<open>The reader after its next \<open>n\<close> bytes are read.\<close>

definition advance :: "nat \<Rightarrow> Reader \<Rightarrow> Reader" where
  "advance n rd = rd\<lparr> pending := drop n (pending rd), teed := teed rd @ take n (pending rd) \<rparr>"

text \<open>
  The bytes \<^verbatim>\<open>encodeObject\<close> writes for a list of keys with their values, and the map
  the loop of \<^verbatim>\<open>decodeObject\<close> builds from them, starting with \<open>obj\<close>.
\<close>

definition entries :: "(bytes \<times> amf) list \<Rightarrow> bytes" where
  "entries kvs = concat (map (\<lambda>(k, v). be16 (of_nat (length k)) @ k @ encodeValue v) kvs)"

definition inserted :: "(bytes, amf) fmap \<Rightarrow> (bytes \<times> amf) list \<Rightarrow> (bytes, amf) fmap" where
  "inserted obj kvs = foldl (\<lambda>m (k, v). fmupd k v m) obj kvs"

definition pairs :: "(bytes, amf) fmap \<Rightarrow> (bytes \<times> amf) list" where
  "pairs m = map (\<lambda>k. (k, the (fmlookup m k))) (sorted_list_of_fset (fmdom m))"

chapter \<open>The properties\<close>

section \<open>Circuit breaker: the transitions\<close>

lemma wrap32_id: "- (2 ^ 31) \<le> x \<Longrightarrow> x < 2 ^ 31 \<Longrightarrow> wrap32 x = x"
  by (simp add: wrap32_def)

lemma Call_closed_failing:
  "state b = Closed \<Longrightarrow>
   Call b t1 (failing e) t2 =
     (if maxFailures b \<le> wrap32 (failures b + 1)
      then (Some (OpenAfterFailures (maxFailures b) e),
            b\<lparr> failures := wrap32 (failures b + 1), lastFailTime := t2, state := Open \<rparr>, True)
      else (Some (Passed e), b\<lparr> failures := wrap32 (failures b + 1), lastFailTime := t2 \<rparr>, True))"
  by (simp add: Call_def Call_prepare_def Call_record_def recordFailure_def failing_def Let_def)

lemma Call_closed_succeeding:
  "state b = Closed \<Longrightarrow> Call b t1 succeeding t2 = (None, b\<lparr> failures := 0 \<rparr>, True)"
  by (simp add: Call_def Call_prepare_def Call_record_def recordSuccess_def succeeding_def Let_def)

lemma Call_open_short_circuit:
  "state b = Open \<Longrightarrow> t1 - lastFailTime b \<le> resetTimeout b \<Longrightarrow>
   Call b t1 fn t2 = (Some CircuitOpen, b, False)"
  by (simp add: Call_def Call_prepare_def)

lemma Call_open_expired:
  "state b = Open \<Longrightarrow> resetTimeout b < t1 - lastFailTime b \<Longrightarrow>
   Call_prepare b t1 = Some (b\<lparr> state := HalfOpen, successCount := 0, failures := 0 \<rparr>) \<and>
   Call b t1 fn t2 = Call (b\<lparr> state := HalfOpen, successCount := 0, failures := 0 \<rparr>) t1 fn t2"
  by (simp add: Call_def Call_prepare_def)

lemma Call_halfopen_failing:
  "state b = HalfOpen \<Longrightarrow>
   Call b t1 (failing e) t2 =
     (Some (OpenAfterFailedRecovery e),
      b\<lparr> failures := wrap32 (failures b + 1), lastFailTime := t2, state := Open \<rparr>, True)"
  by (simp add: Call_def Call_prepare_def Call_record_def recordFailure_def failing_def Let_def)

lemma Call_halfopen_succeeding:
  "state b = HalfOpen \<Longrightarrow>
   Call b t1 succeeding t2 =
     (None,
      (if successThresh b \<le> wrap32 (successCount b + 1)
       then b\<lparr> successCount := 0, state := Closed, failures := 0 \<rparr>
       else b\<lparr> successCount := wrap32 (successCount b + 1) \<rparr>), True)"
  by (simp add: Call_def Call_prepare_def Call_record_def recordSuccess_def succeeding_def Let_def)

lemma calls_Suc_last:
  "calls (Suc k) fn t b = fst (snd (Call (calls k fn t b) t fn t))"
  by (induction k arbitrary: b) simp_all

lemma calls_failing_closed:
  "state b = Closed \<Longrightarrow> 0 \<le> failures b \<Longrightarrow> maxFailures b < 2 ^ 31 \<Longrightarrow>
   failures b + int k < maxFailures b \<Longrightarrow>
   state (calls k (failing e) t b) = Closed \<and>
   failures (calls k (failing e) t b) = failures b + int k \<and>
   maxFailures (calls k (failing e) t b) = maxFailures b"
proof (induction k arbitrary: b)
  case 0
  then show ?case by simp
next
  case (Suc k)
  have w: "wrap32 (failures b + 1) = failures b + 1"
    using Suc.prems by (intro wrap32_id) auto
  let ?b1 = "b\<lparr> failures := failures b + 1, lastFailTime := t \<rparr>"
  have step: "fst (snd (Call b t (failing e) t)) = ?b1"
    using Suc.prems by (simp add: Call_closed_failing w)
  have "state (calls k (failing e) t ?b1) = Closed \<and>
        failures (calls k (failing e) t ?b1) = failures ?b1 + int k \<and>
        maxFailures (calls k (failing e) t ?b1) = maxFailures ?b1"
    using Suc.prems by (intro Suc.IH) auto
  then show ?case by (simp add: step)
qed

lemma calls_failing_opens:
  assumes "state b = Closed" "failures b = 0" "0 < maxFailures b" "maxFailures b < 2 ^ 31"
    and "int n = maxFailures b"
  shows "state (calls n (failing e) t b) = Open"
proof -
  obtain k where n: "n = Suc k" using assms by (cases n) auto
  let ?c = "calls k (failing e) t b"
  have c: "state ?c = Closed \<and> failures ?c = failures b + int k \<and> maxFailures ?c = maxFailures b"
    using assms n by (intro calls_failing_closed) auto
  have w: "wrap32 (failures ?c + 1) = maxFailures b"
    using c assms n by (simp add: wrap32_id)
  have "state (fst (snd (Call ?c t (failing e) t))) = Open"
    using c w by (simp add: Call_closed_failing)
  then show ?thesis unfolding n calls_Suc_last .
qed

lemma calls_succeeding_halfopen:
  "state b = HalfOpen \<Longrightarrow> 0 \<le> successCount b \<Longrightarrow> successThresh b < 2 ^ 31 \<Longrightarrow>
   successCount b + int k < successThresh b \<Longrightarrow>
   calls k succeeding t b = b\<lparr> successCount := successCount b + int k \<rparr>"
proof (induction k arbitrary: b)
  case 0
  then show ?case by simp
next
  case (Suc k)
  have w: "wrap32 (successCount b + 1) = successCount b + 1"
    using Suc.prems by (intro wrap32_id) auto
  let ?b1 = "b\<lparr> successCount := successCount b + 1 \<rparr>"
  have step: "fst (snd (Call b t succeeding t)) = ?b1"
    using Suc.prems by (simp add: Call_halfopen_succeeding w)
  have "calls k succeeding t ?b1 = ?b1\<lparr> successCount := successCount ?b1 + int k \<rparr>"
    using Suc.prems Suc.IH[of ?b1] by simp
  then show ?case by (simp add: step add.assoc)
qed

lemma calls_succeeding_closes:
  assumes "state b = HalfOpen" "successCount b = 0" "0 < successThresh b"
    "successThresh b < 2 ^ 31" "int n = successThresh b"
  shows "calls n succeeding t b = b\<lparr> successCount := 0, state := Closed, failures := 0 \<rparr>"
proof -
  obtain k where n: "n = Suc k" using assms by (cases n) auto
  let ?c = "calls k succeeding t b"
  have c: "?c = b\<lparr> successCount := successCount b + int k \<rparr>"
    using assms n by (intro calls_succeeding_halfopen) auto
  have w: "wrap32 (int k + 1) = successThresh b"
    using assms n by (simp add: wrap32_id)
  have "fst (snd (Call ?c t succeeding t)) = b\<lparr> successCount := 0, state := Closed, failures := 0 \<rparr>"
    using assms n w by (simp add: Call_halfopen_succeeding c)
  then show ?thesis unfolding n calls_Suc_last .
qed

text \<open>
  Claim C3. The step relation of the breaker, for calls that no other goroutine
  interleaves with:
  \<^item> in \<open>Closed\<close>, a failure increments the failure counter and opens the breaker exactly
    when the counter has then reached \<open>maxFailures\<close>, and a success stores 0 in the
    failure counter; starting from a counter of 0, \<open>maxFailures\<close> failures in a row (and
    no fewer) open it;
  \<^item> in \<open>Open\<close>, a call made while no more than \<open>resetTimeout\<close> has passed since the last
    failure returns the dedicated error, leaves the breaker as it is and does not run the
    guarded function; a call made later first moves the breaker to \<open>HalfOpen\<close> with both
    counters 0 and then proceeds as a call on that breaker;
  \<^item> in \<open>HalfOpen\<close>, a failure moves the breaker to \<open>Open\<close>, and a success counts: the
    breaker closes with both counters 0 once \<open>successThresh\<close> successes in a row are
    counted, and stays \<open>HalfOpen\<close> before.
\<close>

theorem breaker_step_relation:
  "(state b = Closed \<longrightarrow>
      Call b t1 (failing e) t2 =
        (if maxFailures b \<le> wrap32 (failures b + 1)
         then (Some (OpenAfterFailures (maxFailures b) e),
               b\<lparr> failures := wrap32 (failures b + 1), lastFailTime := t2, state := Open \<rparr>, True)
         else (Some (Passed e),
               b\<lparr> failures := wrap32 (failures b + 1), lastFailTime := t2 \<rparr>, True)) \<and>
      Call b t1 succeeding t2 = (None, b\<lparr> failures := 0 \<rparr>, True)) \<and>
   (state b = Closed \<and> failures b = 0 \<and> 0 < maxFailures b \<and> maxFailures b < 2 ^ 31 \<and>
    int n = maxFailures b \<longrightarrow>
      (\<forall>k<n. state (calls k (failing e) t1 b) = Closed) \<and>
      state (calls n (failing e) t1 b) = Open) \<and>
   (state b = Open \<and> t1 - lastFailTime b \<le> resetTimeout b \<longrightarrow>
      Call b t1 fn t2 = (Some CircuitOpen, b, False)) \<and>
   (state b = Open \<and> resetTimeout b < t1 - lastFailTime b \<longrightarrow>
      Call_prepare b t1 = Some (b\<lparr> state := HalfOpen, successCount := 0, failures := 0 \<rparr>) \<and>
      Call b t1 fn t2 =
        Call (b\<lparr> state := HalfOpen, successCount := 0, failures := 0 \<rparr>) t1 fn t2) \<and>
   (state b = HalfOpen \<longrightarrow>
      Call b t1 (failing e) t2 =
        (Some (OpenAfterFailedRecovery e),
         b\<lparr> failures := wrap32 (failures b + 1), lastFailTime := t2, state := Open \<rparr>, True) \<and>
      Call b t1 succeeding t2 =
        (None,
         (if successThresh b \<le> wrap32 (successCount b + 1)
          then b\<lparr> successCount := 0, state := Closed, failures := 0 \<rparr>
          else b\<lparr> successCount := wrap32 (successCount b + 1) \<rparr>), True)) \<and>
   (state b = HalfOpen \<and> successCount b = 0 \<and> 0 < successThresh b \<and>
    successThresh b < 2 ^ 31 \<and> int n = successThresh b \<longrightarrow>
      (\<forall>k<n. state (calls k succeeding t1 b) = HalfOpen) \<and>
      calls n succeeding t1 b = b\<lparr> successCount := 0, state := Closed, failures := 0 \<rparr>)"
proof (intro conjI impI allI)
  assume "state b = Closed"
  then show "Call b t1 (failing e) t2 =
        (if maxFailures b \<le> wrap32 (failures b + 1)
         then (Some (OpenAfterFailures (maxFailures b) e),
               b\<lparr> failures := wrap32 (failures b + 1), lastFailTime := t2, state := Open \<rparr>, True)
         else (Some (Passed e),
               b\<lparr> failures := wrap32 (failures b + 1), lastFailTime := t2 \<rparr>, True))"
    by (rule Call_closed_failing)
next
  assume "state b = Closed"
  then show "Call b t1 succeeding t2 = (None, b\<lparr> failures := 0 \<rparr>, True)"
    by (rule Call_closed_succeeding)
next
  fix k
  assume a: "state b = Closed \<and> failures b = 0 \<and> 0 < maxFailures b \<and> maxFailures b < 2 ^ 31 \<and>
    int n = maxFailures b" and k: "k < n"
  then show "state (calls k (failing e) t1 b) = Closed"
    using calls_failing_closed[of b k e t1] by simp
next
  assume "state b = Closed \<and> failures b = 0 \<and> 0 < maxFailures b \<and> maxFailures b < 2 ^ 31 \<and>
    int n = maxFailures b"
  then show "state (calls n (failing e) t1 b) = Open"
    using calls_failing_opens[of b n e t1] by simp
next
  assume "state b = Open \<and> t1 - lastFailTime b \<le> resetTimeout b"
  then show "Call b t1 fn t2 = (Some CircuitOpen, b, False)"
    by (simp add: Call_open_short_circuit)
next
  assume "state b = Open \<and> resetTimeout b < t1 - lastFailTime b"
  then show "Call_prepare b t1 = Some (b\<lparr> state := HalfOpen, successCount := 0, failures := 0 \<rparr>)"
    by (simp add: Call_open_expired)
next
  assume "state b = Open \<and> resetTimeout b < t1 - lastFailTime b"
  then show "Call b t1 fn t2 =
        Call (b\<lparr> state := HalfOpen, successCount := 0, failures := 0 \<rparr>) t1 fn t2"
    using Call_open_expired[of b t1 fn t2] by simp
next
  assume "state b = HalfOpen"
  then show "Call b t1 (failing e) t2 =
        (Some (OpenAfterFailedRecovery e),
         b\<lparr> failures := wrap32 (failures b + 1), lastFailTime := t2, state := Open \<rparr>, True)"
    by (rule Call_halfopen_failing)
next
  assume "state b = HalfOpen"
  then show "Call b t1 succeeding t2 =
        (None,
         (if successThresh b \<le> wrap32 (successCount b + 1)
          then b\<lparr> successCount := 0, state := Closed, failures := 0 \<rparr>
          else b\<lparr> successCount := wrap32 (successCount b + 1) \<rparr>), True)"
    by (rule Call_halfopen_succeeding)
next
  fix k
  assume a: "state b = HalfOpen \<and> successCount b = 0 \<and> 0 < successThresh b \<and>
    successThresh b < 2 ^ 31 \<and> int n = successThresh b" and k: "k < n"
  then show "state (calls k succeeding t1 b) = HalfOpen"
    using calls_succeeding_halfopen[of b k t1] by simp
next
  assume "state b = HalfOpen \<and> successCount b = 0 \<and> 0 < successThresh b \<and>
    successThresh b < 2 ^ 31 \<and> int n = successThresh b"
  then show "calls n succeeding t1 b = b\<lparr> successCount := 0, state := Closed, failures := 0 \<rparr>"
    using calls_succeeding_closes[of b n t1] by simp
qed

text \<open>
  The scenario of a breaker \<^verbatim>\<open>New(2, 50ms, 1)\<close>: one failure leaves it closed, the second
  opens it; a call 10 ms after the last failure is refused without running the function;
  a call 60 ms after it runs on a half-open breaker, and its success closes the breaker.
  Times are in nanoseconds.
\<close>

theorem breaker_step_relation_witness:
  "state (calls 1 (failing ''dial'') 0 (New 2 50000000 1 0)) = Closed \<and>
   state (calls 2 (failing ''dial'') 0 (New 2 50000000 1 0)) = Open \<and>
   Call (calls 2 (failing ''dial'') 0 (New 2 50000000 1 0)) 10000000 succeeding 10000000 =
     (Some CircuitOpen, calls 2 (failing ''dial'') 0 (New 2 50000000 1 0), False) \<and>
   Call_prepare (calls 2 (failing ''dial'') 0 (New 2 50000000 1 0)) 60000000 =
     Some ((New 2 50000000 1 0)\<lparr> state := HalfOpen \<rparr>) \<and>
   Call ((New 2 50000000 1 0)\<lparr> state := HalfOpen \<rparr>) 60000000 succeeding 60000000 =
     (None, New 2 50000000 1 0, True) \<and>
   state (fst (snd (Call ((New 2 50000000 1 0)\<lparr> state := HalfOpen \<rparr>) 60000000
     (failing ''dial'') 60000000))) = Open"
proof -
  let ?b0 = "New 2 50000000 1 0"
  let ?b2 = "calls 2 (failing ''dial'') 0 ?b0"
  let ?h = "?b0\<lparr> state := HalfOpen \<rparr>"
  have b2: "?b2 = ?b0\<lparr> failures := 2, state := Open \<rparr>"
    by (simp add: numeral_2_eq_2 New_def Call_def Call_prepare_def Call_record_def
        recordFailure_def failing_def wrap32_def)
  have closed: "state ?b0 = Closed \<and> failures ?b0 = 0 \<and> 0 < maxFailures ?b0 \<and>
      maxFailures ?b0 < 2 ^ 31 \<and> int 2 = maxFailures ?b0"
    by (simp add: New_def)
  have opened: "state ?b2 = Open \<and> (10000000::int) - lastFailTime ?b2 \<le> resetTimeout ?b2"
    unfolding b2 by (simp add: New_def)
  have expired: "state ?b2 = Open \<and> resetTimeout ?b2 < (60000000::int) - lastFailTime ?b2"
    unfolding b2 by (simp add: New_def)
  have half: "state ?h = HalfOpen" by simp
  note s0 = breaker_step_relation[of ?b0 0 "''dial''" 0 2 succeeding]
  note s2 = breaker_step_relation[of ?b2 10000000 "''dial''" 10000000 0 succeeding]
  note s3 = breaker_step_relation[of ?b2 60000000 "''dial''" 60000000 0 succeeding]
  note s4 = breaker_step_relation[of ?h 60000000 "''dial''" 60000000 0 succeeding]
  have "\<forall>k<2. state (calls k (failing ''dial'') 0 ?b0) = Closed"
    using s0 closed by blast
  then have 1: "state (calls 1 (failing ''dial'') 0 ?b0) = Closed"
    by (rule allE[of _ 1]) (simp del: calls.simps One_nat_def)
  have 2: "state ?b2 = Open"
    using s0 closed by blast
  have 3: "Call ?b2 10000000 succeeding 10000000 = (Some CircuitOpen, ?b2, False)"
    using s2 opened by blast
  have "Call_prepare ?b2 60000000 =
      Some (?b2\<lparr> state := HalfOpen, successCount := 0, failures := 0 \<rparr>)"
    using s3 expired by blast
  then have 4: "Call_prepare ?b2 60000000 = Some ?h"
    unfolding b2 by (simp add: New_def)
  have 5: "Call ?h 60000000 succeeding 60000000 = (None, ?b0, True)"
    using s4 half by (simp add: New_def wrap32_def)
  have 6: "state (fst (snd (Call ?h 60000000 (failing ''dial'') 60000000))) = Open"
    using s4 half by simp
  show ?thesis using 1 2 3 4 5 6 by blast
qed

section \<open>Upstream pool: round-robin selection\<close>


















section \<open>Retry: defaults for an invalid configuration\<close>

lemma Do_loop_invocations:
  "fst (snd (Do_loop cfg env fn a d l i w)) \<le> i + nat (MaxAttempts cfg - a)"
proof (induction cfg env fn a d l i w rule: Do_loop.induct)
  case (1 cfg env fn attempt delay lastErr invoked waits)
  show ?case
  proof (cases "attempt < MaxAttempts cfg \<and> \<not> done_before env (nat attempt) \<and>
      (\<exists>err. fn invoked = Some err) \<and> attempt \<noteq> MaxAttempts cfg - 1 \<and>
      \<not> done_in_wait env (nat attempt)")
    case True
    then obtain err where e: "fn invoked = Some err" by blast
    have "fst (snd (Do_loop cfg env fn (attempt + 1) (nextDelay cfg delay) (Some err)
        (Suc invoked) (waits @ [delay]))) \<le> Suc invoked + nat (MaxAttempts cfg - (attempt + 1))"
      using True e by (intro "1.IH") auto
    moreover have "Do_loop cfg env fn attempt delay lastErr invoked waits =
        Do_loop cfg env fn (attempt + 1) (nextDelay cfg delay) (Some err)
          (Suc invoked) (waits @ [delay])"
      using True e by (subst Do_loop.simps) simp
    moreover have "Suc invoked + nat (MaxAttempts cfg - (attempt + 1))
        = invoked + nat (MaxAttempts cfg - attempt)"
      using True by linarith
    ultimately show ?thesis by simp
  next
    case False
    then show ?thesis
      by (subst Do_loop.simps) (auto split: option.splits)
  qed
qed

lemma Do_defaults_attempts:
  assumes "MaxAttempts cfg \<le> 0"
  shows "fst (snd (Do cfg env fn)) \<le> 3"
proof -
  obtain c where c: "Do cfg env fn = Do_loop c env fn 0 (InitialDelay c) None 0 []"
      "MaxAttempts c = 3"
    using assms by (auto simp: Do_def Let_def)
  show ?thesis
    unfolding c(1) using Do_loop_invocations[of c env fn 0 "InitialDelay c" None 0 "[]"] c(2)
    by simp
qed

lemma Do_invalid_config:
  "Do invalid_config never_cancelled always_failing =
     (Some (MaxRetriesExceeded 3 (Some ''persistent error'')), 3, [1000000000, 2000000000])"
  by (simp add: Do_def invalid_config_def never_cancelled_def always_failing_def nextDelay_def
      go_trunc_def Let_def Do_loop.simps)

lemma DoWithJitter_invalid_config:
  "DoWithJitter invalid_config jf env fn = (Some (MaxRetriesExceeded 0 None), 0, [])"
  by (simp add: DoWithJitter_def invalid_config_def Let_def DoWithJitter_loop.simps)

lemma DoWithJitter_zero_attempts:
  "MaxAttempts cfg \<le> 0 \<Longrightarrow>
   DoWithJitter cfg jf env fn = (Some (MaxRetriesExceeded (MaxAttempts cfg) None), 0, [])"
  by (simp add: DoWithJitter_def Let_def DoWithJitter_loop.simps)

text \<open>
  Claim C7, at the configuration (0/0/0/0). \<^verbatim>\<open>Do\<close> replaces the four invalid fields by the
  defaults: a guarded function that always fails is invoked 3 times, with waits of 1 s
  and 2 s, and the error names 3 attempts. \<^verbatim>\<open>DoWithJitter\<close> replaces nothing: whatever
  the jitter fraction, the context and the guarded function, its loop runs zero times,
  the function is never invoked, and the error names 0 attempts and wraps no error.
\<close>

theorem retry_invalid_config_runs:
  "Do invalid_config never_cancelled always_failing =
     (Some (MaxRetriesExceeded 3 (Some ''persistent error'')), 3, [1000000000, 2000000000]) \<and>
   DoWithJitter invalid_config jf env fn = (Some (MaxRetriesExceeded 0 None), 0, [])"
  by (simp only: Do_invalid_config DoWithJitter_invalid_config)

section \<open>Simple handshake: the echo packets\<close>

lemma ReadFull_Inr:
  "ReadFull n rd = (Inr bs, rd') \<Longrightarrow>
   n \<le> length (pending rd) \<and> bs = take n (pending rd) \<and> pending rd' = drop n (pending rd) \<and>
   teed rd' = teed rd @ bs"
  by (auto simp: ReadFull_def split: if_splits)

lemma readAll_Inr:
  "readAll n c = (Inr bs, c') \<Longrightarrow>
   n \<le> length (incoming c) \<and> bs = take n (incoming c) \<and> incoming c' = drop n (incoming c) \<and>
   written c' = written c \<and> takes c' = takes c"
  by (auto simp: readAll_def split: prod.splits dest!: ReadFull_Inr)

lemma readAll_Inl:
  "readAll n c = (Inl e, c') \<Longrightarrow> written c' = written c \<and> takes c' = takes c"
  by (auto simp: readAll_def split: prod.splits)

lemma writeAll_Inr:
  "writeAll buf c = (Inr u, c') \<Longrightarrow> written c' = written c @ buf \<and> incoming c' = incoming c"
  by (auto simp: writeAll_def split: option.splits if_splits)

lemma writeAll_Inl:
  "writeAll buf c = (Inl e, c') \<Longrightarrow>
   (\<exists>k. written c' = written c @ take k buf \<and> k < length buf) \<and> incoming c' = incoming c"
  by (auto simp: writeAll_def split: option.splits if_splits)

lemma copy_at_whole: "length src = length dst \<Longrightarrow> copy_at dst 0 src = src"
  by (simp add: copy_at_def)

lemma server_echo:
  "length c1 = 1536 \<Longrightarrow>
   copy_at (copy_at (copy_at (replicate handshakeSize 0) 0 c1) 0 (be32 t)) 4 (take 4 c1)
   = be32 t @ take 4 c1 @ drop 8 c1"
  by (simp add: copy_at_def handshakeSize_def be32_def drop_take)

lemma simpleServerResponse_ok:
  assumes "simpleServerResponse rw c1 opts = (Inr (), rw')" "length c1 = 1536"
  shows "1528 \<le> length (Rand opts) \<and> 1536 \<le> length (incoming rw) \<and>
     written rw' = written rw @ [3] @ simplePacket (Now opts 0) (take 1528 (Rand opts))
        @ (be32 (Now opts 1) @ take 4 c1 @ drop 8 c1) \<and>
     incoming rw' = drop 1536 (incoming rw)"
  using assms
  apply (simp add: simpleServerResponse_def server_echo Let_def versionByte_def
      split: prod.splits sum.splits)
  apply (auto dest!: ReadFull_Inr readAll_Inr writeAll_Inr simp: handshakeSize_def)
  done

lemma simpleClientHandshake_ok:
  assumes "simpleClientHandshake rw opts = (Inr (), rw')"
  shows "1528 \<le> length (Rand opts) \<and> 3073 \<le> length (incoming rw) \<and> incoming rw ! 0 = 3 \<and>
     written rw' = written rw @ [3] @ simplePacket (Now opts 0) (take 1528 (Rand opts))
        @ take 1536 (drop 1 (incoming rw)) \<and>
     incoming rw' = drop 3073 (incoming rw)"
  using assms
  apply (simp add: simpleClientHandshake_def Let_def versionByte_def
      split: prod.splits sum.splits if_splits)
  apply (auto dest!: ReadFull_Inr readAll_Inr writeAll_Inr simp: handshakeSize_def copy_at_whole)
  done
lemma be32_1: "be32 1 = [0,0,0,1]" by (simp add: be32_def)
lemma be32_2: "be32 2 = [0,0,0,2]" by (simp add: be32_def)

lemma test_client_run:
  "simpleClientHandshake \<lparr> incoming = [3] @ test_S1 @ test_S2, written = [], takes = None \<rparr>
     test_client_opts
   = (Inr (), \<lparr> incoming = [], written = [3] @ test_C1 @ test_S1, takes = None \<rparr>)"
  by (simp add: simpleClientHandshake_def test_client_opts_def test_S1_def test_S2_def test_C1_def
      ReadFull_def readAll_def writeAll_def handshakeSize_def versionByte_def simplePacket_def
      be32_1 copy_at_def Let_def)

lemma test_server_run:
  "simpleServerResponse \<lparr> incoming = test_S1, written = [], takes = None \<rparr> test_C1
     test_server_opts
   = (Inr (), \<lparr> incoming = [], written = [3] @ test_S1 @ test_S2, takes = None \<rparr>)"
  by (simp add: simpleServerResponse_def test_server_opts_def test_S1_def test_S2_def test_C1_def
      ReadFull_def readAll_def writeAll_def handshakeSize_def versionByte_def simplePacket_def
      be32_2 copy_at_def Let_def)

text \<open>
  Claim C8, as the code has it. A server response that succeeds on a 1536-byte C1 has
  written S0, S1 and then an S2 that is C1 with the server's (second) clock reading in
  bytes 0 to 3 and C1's timestamp, its bytes 0 to 3, in bytes 4 to 7; and it has consumed
  the 1536 bytes of the peer's C2. A client handshake that succeeds has consumed S0, S1
  and the 1536 bytes of S2, and has written C0, C1 and then a C2 that is the S1 it read,
  byte for byte: the client writes no timestamp into its echo.
\<close>

theorem handshake_echo_packets:
  "(simpleServerResponse rw c1 opts = (Inr (), rw') \<and> length c1 = 1536 \<longrightarrow>
      1536 \<le> length (incoming rw) \<and> incoming rw' = drop 1536 (incoming rw) \<and>
      written rw' = written rw @ [3] @ simplePacket (Now opts 0) (take 1528 (Rand opts))
         @ (be32 (Now opts 1) @ take 4 c1 @ drop 8 c1)) \<and>
   (simpleClientHandshake rw opts = (Inr (), rw') \<longrightarrow>
      3073 \<le> length (incoming rw) \<and> incoming rw' = drop 3073 (incoming rw) \<and>
      written rw' = written rw @ [3] @ simplePacket (Now opts 0) (take 1528 (Rand opts))
         @ take 1536 (drop 1 (incoming rw)))"
proof (intro conjI impI)
  assume a: "simpleServerResponse rw c1 opts = (Inr (), rw') \<and> length c1 = 1536"
  note r = simpleServerResponse_ok[of rw c1 opts rw']
  show "1536 \<le> length (incoming rw)" using a r by blast
  show "incoming rw' = drop 1536 (incoming rw)" using a r by blast
  show "written rw' = written rw @ [3] @ simplePacket (Now opts 0) (take 1528 (Rand opts))
         @ (be32 (Now opts 1) @ take 4 c1 @ drop 8 c1)" using a r by blast
next
  assume a: "simpleClientHandshake rw opts = (Inr (), rw')"
  note r = simpleClientHandshake_ok[OF a]
  show "3073 \<le> length (incoming rw)" using r by blast
  show "incoming rw' = drop 3073 (incoming rw)" using r by blast
  show "written rw' = written rw @ [3] @ simplePacket (Now opts 0) (take 1528 (Rand opts))
         @ take 1536 (drop 1 (incoming rw))" using r by blast
qed

text \<open>
  The two runs of the handshake test. The server, given the client's C1 and then its C2,
  answers S0, S1, S2 with S2 = (2, 1, the rest of C1); the client, given S0, S1, S2,
  sends C0, C1 and S1 again.
\<close>

theorem handshake_echo_packets_witness:
  "simpleServerResponse \<lparr> incoming = test_S1, written = [], takes = None \<rparr> test_C1
       test_server_opts
     = (Inr (), \<lparr> incoming = [], written = [3] @ test_S1 @ test_S2, takes = None \<rparr>) \<and>
   length test_C1 = 1536 \<and>
   [3] @ test_S1 @ test_S2 =
     [] @ [3] @ simplePacket (Now test_server_opts 0) (take 1528 (Rand test_server_opts))
       @ (be32 (Now test_server_opts 1) @ take 4 test_C1 @ drop 8 test_C1) \<and>
   simpleClientHandshake \<lparr> incoming = [3] @ test_S1 @ test_S2, written = [], takes = None \<rparr>
       test_client_opts
     = (Inr (), \<lparr> incoming = [], written = [3] @ test_C1 @ test_S1, takes = None \<rparr>) \<and>
   [3] @ test_C1 @ test_S1 =
     [] @ [3] @ simplePacket (Now test_client_opts 0) (take 1528 (Rand test_client_opts))
       @ take 1536 (drop 1 ([3] @ test_S1 @ test_S2))"
proof -
  let ?srv = "\<lparr> incoming = test_S1, written = [], takes = None \<rparr>"
  let ?srv' = "\<lparr> incoming = [], written = [3] @ test_S1 @ test_S2, takes = None \<rparr>"
  let ?cli = "\<lparr> incoming = [3] @ test_S1 @ test_S2, written = [], takes = None \<rparr>"
  let ?cli' = "\<lparr> incoming = [], written = [3] @ test_C1 @ test_S1, takes = None \<rparr>"
  have l: "length test_C1 = 1536" by (simp add: test_C1_def)
  have s: "written ?srv' = written ?srv @ [3]
      @ simplePacket (Now test_server_opts 0) (take 1528 (Rand test_server_opts))
      @ (be32 (Now test_server_opts 1) @ take 4 test_C1 @ drop 8 test_C1)"
    using handshake_echo_packets[of ?srv test_C1 test_server_opts ?srv'] test_server_run l
    by blast
  have c: "written ?cli' = written ?cli @ [3]
      @ simplePacket (Now test_client_opts 0) (take 1528 (Rand test_client_opts))
      @ take 1536 (drop 1 (incoming ?cli))"
    using handshake_echo_packets[of ?cli test_C1 test_client_opts ?cli'] test_client_run
    by blast
  show ?thesis using test_server_run test_client_run l s c by simp
qed

text \<open>
  The claim as stated fails for the client role: with the client's clock at 1 and the
  server's S1 stamped 2, the echo C2 the client writes (the last 1536 bytes it writes) is
  S1 itself, not S1 with the client's timestamp in bytes 0 to 3 and the server's in
  bytes 4 to 7.
\<close>

theorem handshake_client_echo_counterexample:
  "simpleClientHandshake \<lparr> incoming = [3] @ test_S1 @ test_S2, written = [], takes = None \<rparr>
       test_client_opts
     = (Inr (), \<lparr> incoming = [], written = [3] @ test_C1 @ test_S1, takes = None \<rparr>) \<and>
   drop 1537 ([3] @ test_C1 @ test_S1) = test_S1 \<and>
   test_S1 \<noteq> be32 (Now test_client_opts 0) @ take 4 test_S1 @ drop 8 test_S1"
proof -
  have "drop 1537 ([3] @ test_C1 @ test_S1) = test_S1"
    by (simp add: test_C1_def)
  moreover have "test_S1 \<noteq> be32 (Now test_client_opts 0) @ take 4 test_S1 @ drop 8 test_S1"
    by (simp add: test_S1_def test_client_opts_def be32_1)
  ultimately show ?thesis using test_client_run by blast
qed

section \<open>Chunk stream reader\<close>

lemma readChunk_rxChunkSize:
  "readChunk c = (res, c1) \<Longrightarrow> rxChunkSize c1 = rxChunkSize c"
  by (auto simp: readChunk_def readPayload_def Let_def
           split: prod.splits sum.splits if_splits)

lemma ReadMessage_rxChunkSize:
  "ReadMessage c = (Inr msg, c2) \<Longrightarrow>
     rxChunkSize c2 =
       (if TypeID (Header msg) = TypeSetChunkSize \<and> 4 \<le> length (Payload msg)
           \<and> 0 < uint32_be (Payload msg) \<and> uint32_be (Payload msg) < 2147483647
        then uint32_be (Payload msg) else rxChunkSize c)"
proof (induction c rule: ReadMessage.induct)
  case (1 c)
  obtain res c1 where rc: "readChunk c = (res, c1)" by (cases "readChunk c")
  note keep = readChunk_rxChunkSize [OF rc]
  show ?case
  proof (cases res)
    case (Inl e)
    with rc "1.prems" show ?thesis by (simp add: ReadMessage.simps [of c])
  next
    case (Inr m)
    show ?thesis
    proof (cases m)
      case None
      with rc Inr "1.prems" have "ReadMessage c1 = (Inr msg, c2)"
        by (simp add: ReadMessage.simps [of c])
      with "1.IH" [of res c1 m] rc Inr None keep show ?thesis by simp
    next
      case (Some msg')
      with rc Inr "1.prems" have "msg' = msg" "c2 = intercept c1 msg"
        by (auto simp: ReadMessage.simps [of c])
      with keep show ?thesis by (simp add: intercept_def Let_def)
    qed
  qed
qed

lemma ReadMessage_delivers:
  "readChunk c = (Inr (Some msg), c1) \<Longrightarrow> ReadMessage c = (Inr msg, intercept c1 msg)"
  by (simp add: ReadMessage.simps [of c])

lemma readChunk_fmt3_fresh:
  assumes bh: "readBasicHeader (rdr c) = (Inr (3, csID), rd1)"
      and fresh: "streams c csID = None"
  shows "readChunk c =
           (Inr (Some \<lparr> Header = zeroHeader\<lparr> Fmt := 3, CSID := csID \<rparr>, Payload = [],
                         bytesRead = 0 \<rparr>),
            c\<lparr> rdr := rd1,
               streams := (streams c)(csID \<mapsto>
                 \<lparr> LastHeader = zeroHeader\<lparr> Fmt := 3, CSID := csID \<rparr>, Partial = None \<rparr>) \<rparr>)"
proof -
  have hf: "readHeaderFields 3 csID zeroState rd1
              = (Inr (zeroHeader\<lparr> Fmt := 3, CSID := csID \<rparr>), rd1)"
    by (simp add: readHeaderFields_def zeroState_def zeroHeader_def)
  have et: "readExtendedTimestamp 3 zeroState (zeroHeader\<lparr> Fmt := 3, CSID := csID \<rparr>) rd1
              = (Inr (zeroHeader\<lparr> Fmt := 3, CSID := csID \<rparr>), rd1)"
    by (simp add: readExtendedTimestamp_def zeroHeader_def)
  have pl: "readPayload c' csID zeroState (zeroHeader\<lparr> Fmt := 3, CSID := csID \<rparr>) =
          (Inr (Some \<lparr> Header = zeroHeader\<lparr> Fmt := 3, CSID := csID \<rparr>, Payload = [],
                         bytesRead = 0 \<rparr>),
            c'\<lparr> streams := (streams c')(csID \<mapsto>
                 \<lparr> LastHeader = zeroHeader\<lparr> Fmt := 3, CSID := csID \<rparr>, Partial = None \<rparr>) \<rparr>)"
    for c'
    by (simp add: readPayload_def zeroState_def zeroHeader_def ReadFull_def copy_at_def Let_def)
  show ?thesis
    by (simp add: readChunk_def bh fresh hf et pl Let_def)
qed

text \<open>
  Claim C10. A chunk of format 3 on a chunk stream id with no recorded state (and so no
  message in progress) is no error: once its basic header is read (leaving the reader
  \<open>rd1\<close>), \<^verbatim>\<open>ReadMessage\<close> returns at once a message whose header is the zero header with
  the format and the chunk stream id set, so type id 0, timestamp 0 and length 0, with
  an empty payload; the reader stays at \<open>rd1\<close>, no byte after the basic header being
  consumed; the state recorded for the id holds that header and no message in progress.
\<close>

theorem fmt3_on_fresh_stream:
  assumes "readBasicHeader (rdr c) = (Inr (3, csID), rd1)"
      and "streams c csID = None"
  shows "ReadMessage c =
           (Inr \<lparr> Header = zeroHeader\<lparr> Fmt := 3, CSID := csID \<rparr>, Payload = [],
                   bytesRead = 0 \<rparr>,
            c\<lparr> rdr := rd1,
               streams := (streams c)(csID \<mapsto>
                 \<lparr> LastHeader = zeroHeader\<lparr> Fmt := 3, CSID := csID \<rparr>, Partial = None \<rparr>) \<rparr>)
         \<and> TypeID (zeroHeader\<lparr> Fmt := 3, CSID := csID \<rparr>) = 0
         \<and> Timestamp (zeroHeader\<lparr> Fmt := 3, CSID := csID \<rparr>) = 0
         \<and> Length (zeroHeader\<lparr> Fmt := 3, CSID := csID \<rparr>) = 0"
proof -
  note rc = readChunk_fmt3_fresh [OF assms]
  show ?thesis
    by (simp add: ReadMessage_delivers [OF rc] intercept_def TypeSetChunkSize_def
                  zeroHeader_def)
qed

theorem fmt3_on_fresh_stream_witness:
  "fst (ReadMessage (NewChunkStream (reader_of [197, 1, 2, 3])))
     = Inr \<lparr> Header = \<lparr> Fmt = 3, CSID = 5, Timestamp = 0, Length = 0, TypeID = 0,
                        StreamID = 0, TimeDelta = 0 \<rparr>,
             Payload = [], bytesRead = 0 \<rparr>
   \<and> pending (rdr (snd (ReadMessage (NewChunkStream (reader_of [197, 1, 2, 3]))))) = [1, 2, 3]"
proof -
  have bh: "readBasicHeader (rdr (NewChunkStream (reader_of [197, 1, 2, 3])))
              = (Inr (3, 5), \<lparr> pending = [1, 2, 3], teed = [197] \<rparr>)"
    by code_simp
  have fresh: "streams (NewChunkStream (reader_of [197, 1, 2, 3])) 5 = None"
    by (simp add: NewChunkStream_def)
  from fmt3_on_fresh_stream [OF bh fresh] show ?thesis
    by (simp add: zeroHeader_def)
qed

text \<open>
  Claim C6, refuted by a run. A \<^verbatim>\<open>SetChunkSize\<close> message of value \<^verbatim>\<open>0x7FFFFFFF\<close>, the
  largest chunk size of the protocol and a value with \<open>0 < v < 2\<^sup>3\<^sup>1\<close>, is returned to the
  caller, but the receive chunk size stays 128: the guard of \<^verbatim>\<open>ReadMessage\<close> is
  \<^verbatim>\<open>newSize < 0x7FFFFFFF\<close>, one short of the range. The value \<^verbatim>\<open>0x7FFFFFFE\<close> in the same
  message is taken. (For every run, \<open>ReadMessage_rxChunkSize\<close> above gives the chunk size
  after a message is returned.)
\<close>

theorem set_chunk_size_largest_value:
  "fst (ReadMessage (NewChunkStream (reader_of (set_chunk_size_input 2147483647))))
     = Inr \<lparr> Header = \<lparr> Fmt = 0, CSID = 2, Timestamp = 0, Length = 4, TypeID = 1,
                        StreamID = 0, TimeDelta = 0 \<rparr>,
             Payload = [127, 255, 255, 255], bytesRead = 4 \<rparr>
   \<and> uint32_be [127, 255, 255, 255] = 2147483647
   \<and> (0 :: 32 word) < 2147483647 \<and> (2147483647 :: 32 word) < 2 ^ 31
   \<and> rxChunkSize
        (snd (ReadMessage (NewChunkStream (reader_of (set_chunk_size_input 2147483647)))))
       = 128
   \<and> rxChunkSize
        (snd (ReadMessage (NewChunkStream (reader_of (set_chunk_size_input 2147483646)))))
       = 2147483646"
proof (intro conjI)
  show "fst (ReadMessage (NewChunkStream (reader_of (set_chunk_size_input 2147483647))))
     = Inr \<lparr> Header = \<lparr> Fmt = 0, CSID = 2, Timestamp = 0, Length = 4, TypeID = 1,
                        StreamID = 0, TimeDelta = 0 \<rparr>,
             Payload = [127, 255, 255, 255], bytesRead = 4 \<rparr>"
    by code_simp
  show "uint32_be [127, 255, 255, 255] = 2147483647" by code_simp
  show "(0 :: 32 word) < 2147483647" by simp
  show "(2147483647 :: 32 word) < 2 ^ 31" by simp
  show "rxChunkSize
        (snd (ReadMessage (NewChunkStream (reader_of (set_chunk_size_input 2147483647)))))
       = 128"
    by code_simp
  show "rxChunkSize
        (snd (ReadMessage (NewChunkStream (reader_of (set_chunk_size_input 2147483646)))))
       = 2147483646"
    by code_simp
qed

text \<open>
  Claim C2, refuted by a run. The input \<open>two_messages [255, 255, 254]\<close> is a valid chunk
  sequence: an audio message with timestamp \<^verbatim>\<open>0xFFFFFE\<close>, then one of 129 bytes with delta
  1, so with timestamp \<^verbatim>\<open>0xFFFFFF\<close>, split at the chunk size 128 into a format-1 chunk
  and a format-3 continuation; no chunk has a timestamp field of \<^verbatim>\<open>0xFFFFFF\<close>, so none
  carries the extended field. The first \<^verbatim>\<open>ReadMessage\<close> returns the first message. The
  second fails with \<^verbatim>\<open>ErrUnexpectedEOF\<close>: at the continuation chunk the reader compares
  the absolute timestamp of the message in progress with \<^verbatim>\<open>0xFFFFFF\<close> and takes payload
  bytes for an extended timestamp. The same chunks with the first timestamp \<open>16\<close> are
  read as they should be.
\<close>

theorem chunk_reader_continuation_timestamp:
  "fst (ReadMessage (NewChunkStream (reader_of (two_messages [255, 255, 254]))))
     = Inr \<lparr> Header = \<lparr> Fmt = 0, CSID = 4, Timestamp = 16777214, Length = 1, TypeID = 8,
                        StreamID = 1, TimeDelta = 0 \<rparr>,
             Payload = [170], bytesRead = 1 \<rparr>
   \<and> fst (ReadMessage (snd (ReadMessage
            (NewChunkStream (reader_of (two_messages [255, 255, 254]))))))
     = Inl ErrUnexpectedEOF
   \<and> fst (ReadMessage (snd (ReadMessage
            (NewChunkStream (reader_of (two_messages [0, 0, 16]))))))
     = Inr \<lparr> Header = \<lparr> Fmt = 1, CSID = 4, Timestamp = 17, Length = 129, TypeID = 8,
                        StreamID = 1, TimeDelta = 1 \<rparr>,
             Payload = replicate 128 187 @ [204], bytesRead = 129 \<rparr>"
proof (intro conjI)
  show "fst (ReadMessage (NewChunkStream (reader_of (two_messages [255, 255, 254]))))
     = Inr \<lparr> Header = \<lparr> Fmt = 0, CSID = 4, Timestamp = 16777214, Length = 1, TypeID = 8,
                        StreamID = 1, TimeDelta = 0 \<rparr>,
             Payload = [170], bytesRead = 1 \<rparr>"
    by code_simp
  show "fst (ReadMessage (snd (ReadMessage
            (NewChunkStream (reader_of (two_messages [255, 255, 254]))))))
     = Inl ErrUnexpectedEOF"
    by code_simp
  show "fst (ReadMessage (snd (ReadMessage
            (NewChunkStream (reader_of (two_messages [0, 0, 16]))))))
     = Inr \<lparr> Header = \<lparr> Fmt = 1, CSID = 4, Timestamp = 17, Length = 129, TypeID = 8,
                        StreamID = 1, TimeDelta = 1 \<rparr>,
             Payload = replicate 128 187 @ [204], bytesRead = 129 \<rparr>"
    by code_simp
qed

section \<open>AMF0 codec\<close>

subsection \<open>Readers and byte order\<close>

lemma ReadFull_advance:
  "0 < n \<Longrightarrow> n \<le> length (pending rd)
    \<Longrightarrow> ReadFull n rd = (Inr (take n (pending rd)), advance n rd)"
  by (auto simp: ReadFull_def advance_def)

lemma advance_advance [simp]: "advance m (advance n rd) = advance (n + m) rd"
  by (simp add: advance_def take_add add.commute [of m n])

lemma pending_advance [simp]: "pending (advance n rd) = drop n (pending rd)"
  by (simp add: advance_def)

lemma advance_0 [simp]: "advance 0 rd = rd"
  by (simp add: advance_def)

lemma uint16_be_be16 [simp]: "uint16_be (be16 w) = w"
proof (rule bit_word_eqI)
  fix n assume "n < LENGTH(16)"
  then consider "n < 8" | "8 \<le> n" "n < 16" by fastforce
  then show "bit (uint16_be (be16 w)) n = bit w n"
    by cases (auto simp: uint16_be_def be16_def bit_simps)
qed

lemma uint64_be_be64 [simp]: "uint64_be (be64 w) = w"
proof (rule bit_word_eqI)
  fix n assume "n < LENGTH(64)"
  then consider "n < 8" | "8 \<le> n" "n < 16" | "16 \<le> n" "n < 24" | "24 \<le> n" "n < 32"
    | "32 \<le> n" "n < 40" | "40 \<le> n" "n < 48" | "48 \<le> n" "n < 56" | "56 \<le> n" "n < 64"
    by fastforce
  then show "bit (uint64_be (be64 w)) n = bit w n"
    by cases (auto simp: uint64_be_def be64_def bit_simps)
qed

lemma length_be16 [simp]: "length (be16 w) = 2"
  by (simp add: be16_def)

lemma length_be64 [simp]: "length (be64 w) = 8"
  by (simp add: be64_def)

lemma ReadFull_prefix:
  "pending rd = xs @ rest \<Longrightarrow> length xs = n \<Longrightarrow> 0 < n
    \<Longrightarrow> ReadFull n rd = (Inr xs, advance n rd)"
  by (simp add: ReadFull_advance)

subsection \<open>Strings\<close>

lemma decodeString_encoded:
  assumes "length s \<le> 65535" and "pending rd = be16 (of_nat (length s)) @ s @ rest"
  shows "decodeString rd = (Inr s, advance (2 + length s) rd)"
proof -
  have r2: "ReadFull 2 rd = (Inr (be16 (of_nat (length s))), advance 2 rd)"
    by (rule ReadFull_prefix [OF assms(2)]) simp_all
  have un: "unat (of_nat (length s) :: 16 word) = length s"
    using assms(1) by (simp add: unat_of_nat)
  show ?thesis
  proof (cases "s = []")
    case True
    with r2 show ?thesis by (simp add: decodeString_def)
  next
    case False
    then have nz: "(of_nat (length s) :: 16 word) \<noteq> 0"
      using un by (metis length_0_conv unat_0)
    have le: "\<not> maxAMFStringLen < uint (of_nat (length s) :: 16 word)"
      using uint_bounded [of "of_nat (length s) :: 16 word"] by (simp add: maxAMFStringLen_def)
    have r3: "ReadFull (length s) (advance 2 rd) = (Inr s, advance (2 + length s) rd)"
      using ReadFull_prefix [of "advance 2 rd" s rest "length s"] assms(2) False by simp
    show ?thesis
      by (simp add: decodeString_def r2 nz le un r3 Let_def)
  qed
qed

lemma decodeString_never_too_long: "fst (decodeString rd) \<noteq> Inl ErrStringTooLong"
proof -
  have "\<not> maxAMFStringLen < uint (w :: 16 word)" for w
    using uint_bounded [of w] by (simp add: maxAMFStringLen_def)
  then show ?thesis
    by (auto simp: decodeString_def Let_def ReadFull_def split: prod.splits sum.splits if_splits)
qed

subsection \<open>Objects\<close>

lemma entries_Nil [simp]: "entries [] = []"
  by (simp add: entries_def)

lemma entries_Cons [simp]:
  "entries ((k, v) # kvs) = be16 (of_nat (length k)) @ k @ encodeValue v @ entries kvs"
  by (simp add: entries_def)

lemma inserted_Nil [simp]: "inserted obj [] = obj"
  by (simp add: inserted_def)

lemma inserted_Cons [simp]: "inserted obj ((k, v) # kvs) = inserted (fmupd k v obj) kvs"
  by (simp add: inserted_def)

lemma fcard_fmupd_le: "int (fcard (fmdom (fmupd k v obj))) \<le> int (fcard (fmdom obj)) + 1"
  by (simp add: fcard_finsert_if)

lemma decodeObjectN_end:
  assumes "int (fcard (fmdom obj)) < maxObjectKeys"
      and "pending rd = [0, 0, MarkerObjectEnd] @ rest"
      and "3 \<le> n"
  shows "decodeObjectN n obj rd = (Inr obj, advance 3 rd)"
proof -
  from assms(3) obtain n2 where n: "n = Suc (Suc n2)"
    by (cases n; simp) (rename_tac m, case_tac m, auto)
  define rd1 where "rd1 = advance 2 rd"
  define rd2 where "rd2 = advance 3 rd"
  have s: "decodeString rd = (Inr [], rd1)"
    using decodeString_encoded [of "[]" rd "MarkerObjectEnd # rest"] assms(2)
    by (simp add: be16_def rd1_def)
  have r: "ReadFull 1 rd1 = (Inr [MarkerObjectEnd], rd2)"
    using ReadFull_prefix [of rd1 "[MarkerObjectEnd]" rest 1] assms(2)
    by (simp add: rd1_def rd2_def)
  have v: "decodeValueN (Suc n2) rd1 = (Inl ErrEndObject, rd2)"
    using r by (simp add: marker_defs)
  have "decodeObjectN (Suc (Suc n2)) obj rd = (Inr obj, rd2)"
    using assms(1) by (simp add: s v del: decodeValueN.simps)
  then show ?thesis by (simp add: n rd2_def)
qed

lemma decodeObjectN_entries:
  assumes "\<And>k v n rd rest. (k, v) \<in> set kvs \<Longrightarrow> pending rd = encodeValue v @ rest
             \<Longrightarrow> length (encodeValue v) \<le> n
             \<Longrightarrow> decodeValueN n rd = (Inr v, advance (length (encodeValue v)) rd)"
      and "\<And>k v. (k, v) \<in> set kvs \<Longrightarrow> length k \<le> 65535"
      and "int (fcard (fmdom obj)) + int (length kvs) < maxObjectKeys"
      and "pending rd = entries kvs @ [0, 0, MarkerObjectEnd] @ rest"
      and "length (entries kvs) + 3 \<le> n"
  shows "decodeObjectN n obj rd = (Inr (inserted obj kvs), advance (length (entries kvs) + 3) rd)"
  using assms
proof (induction kvs arbitrary: obj rd n)
  case Nil
  then show ?case using decodeObjectN_end [of obj rd rest n] by simp
next
  case (Cons kv kvs)
  obtain k v where kv: "kv = (k, v)" by (cases kv)
  from Cons.prems(5) obtain n1 where n: "n = Suc n1" by (cases n) auto
  define rd1 where "rd1 = advance (2 + length k) rd"
  define rd2 where "rd2 = advance (length (encodeValue v)) rd1"
  define rd3 where "rd3 = advance (length (entries kvs) + 3) rd2"
  have lim: "\<not> maxObjectKeys \<le> int (fcard (fmdom obj))"
    using Cons.prems(3) by simp
  have klen: "length k \<le> 65535" using Cons.prems(2) [of k v] kv by simp
  have pend: "pending rd = be16 (of_nat (length k)) @ k @ (encodeValue v @ entries kvs
                 @ [0, 0, MarkerObjectEnd] @ rest)"
    using Cons.prems(4) kv by simp
  have s: "decodeString rd = (Inr k, rd1)"
    unfolding rd1_def by (rule decodeString_encoded [OF klen pend])
  have p1: "pending rd1 = encodeValue v @ (entries kvs @ [0, 0, MarkerObjectEnd] @ rest)"
    using pend by (simp add: rd1_def)
  have v: "decodeValueN n1 rd1 = (Inr v, rd2)"
    unfolding rd2_def
  proof (rule Cons.prems(1) [of k v, OF _ p1])
    show "(k, v) \<in> set (kv # kvs)" by (simp add: kv)
    show "length (encodeValue v) \<le> n1" using Cons.prems(5) n kv by simp
  qed
  have p2: "pending rd2 = entries kvs @ [0, 0, MarkerObjectEnd] @ rest"
    using p1 by (simp add: rd2_def)
  have rec: "decodeObjectN n1 (fmupd k v obj) rd2 = (Inr (inserted (fmupd k v obj) kvs), rd3)"
    unfolding rd3_def
  proof (rule Cons.IH [OF _ _ _ p2])
    show "decodeValueN n rd = (Inr v, advance (length (encodeValue v)) rd)"
      if "(k, v) \<in> set kvs" "pending rd = encodeValue v @ rest" "length (encodeValue v) \<le> n"
      for k v n rd rest
      using Cons.prems(1) [of k v rd rest n] that by simp
    show "length k \<le> 65535" if "(k, v) \<in> set kvs" for k v
      using Cons.prems(2) [of k v] that by simp
    show "int (fcard (fmdom (fmupd k v obj))) + int (length kvs) < maxObjectKeys"
      using Cons.prems(3) fcard_fmupd_le [of k v obj] by simp
    show "length (entries kvs) + 3 \<le> n1"
      using Cons.prems(5) n kv by simp
  qed
  have "decodeObjectN (Suc n1) obj rd = (Inr (inserted (fmupd k v obj) kvs), rd3)"
    using lim by (simp add: s v rec del: decodeValueN.simps)
  moreover have "rd3 = advance (length (entries (kv # kvs)) + 3) rd"
    by (simp add: rd3_def rd2_def rd1_def kv add.assoc add.commute add.left_commute)
  ultimately show ?case by (simp add: n kv)
qed

lemma distinct_sorted_list_of_fset [simp]: "distinct (sorted_list_of_fset S)"
  by (simp add: sorted_list_of_fset.rep_eq)

lemma length_sorted_list_of_fset: "length (sorted_list_of_fset S) = fcard S"
proof -
  have "card (set (sorted_list_of_fset S)) = length (sorted_list_of_fset S)"
    by (rule distinct_card) simp
  then show ?thesis by (simp add: fcard.rep_eq)
qed

lemma pairs_sorted_list: "pairs m = sorted_list_of_fmap m"
  by (simp add: pairs_def sorted_list_of_fmap_def)

lemma distinct_pairs: "distinct (map fst (pairs m))"
  by (simp add: pairs_def comp_def)

lemma length_pairs: "length (pairs m) = fcard (fmdom m)"
  by (simp add: pairs_def length_sorted_list_of_fset)

lemma set_pairs: "(k, v) \<in> set (pairs m) \<longleftrightarrow> fmlookup m k = Some v"
  by (auto simp: pairs_def fmlookup_dom_iff image_iff)

lemma fmlookup_inserted:
  "fmlookup (inserted obj kvs) x =
     (case map_of (rev kvs) x of Some v \<Rightarrow> Some v | None \<Rightarrow> fmlookup obj x)"
proof (induction kvs arbitrary: obj)
  case Nil
  show ?case by simp
next
  case (Cons kv kvs)
  obtain k v where kv: "kv = (k, v)" by (cases kv)
  show ?case
    by (auto simp: kv Cons.IH map_add_def split: option.splits)
qed

lemma inserted_pairs: "inserted fmempty (pairs m) = m"
proof (rule fmap_ext)
  fix x
  have "distinct (map fst (rev (pairs m)))"
    using distinct_pairs [of m] by (simp add: rev_map [symmetric])
  then have "map_of (rev (pairs m)) = map_of (pairs m)"
    using distinct_pairs [of m] by (subst map_of_inject_set) simp_all
  then have "map_of (rev (pairs m)) = fmlookup m"
    by (simp add: pairs_sorted_list)
  then show "fmlookup (inserted fmempty (pairs m)) x = fmlookup m x"
    by (simp add: fmlookup_inserted split: option.splits)
qed

lemma encodeValue_object:
  "encodeValue (AMFObject m) = MarkerObject # entries (pairs m) @ [0, 0, MarkerObjectEnd]"
proof -
  have "map (\<lambda>k. be16 (of_nat (length k)) @ k @ the (fmlookup (fmmap encodeValue m) k))
            (sorted_list_of_fset (fmdom m))
        = map (\<lambda>(k, v). be16 (of_nat (length k)) @ k @ encodeValue v) (pairs m)"
    by (auto simp: pairs_def comp_def fmlookup_dom_iff)
  then show ?thesis
    by (simp add: encodeObject_def entries_def)
qed

subsection \<open>Decoding what the encoder wrote\<close>

lemma encodable_object:
  "encodable (AMFObject m) \<longleftrightarrow>
     int (fcard (fmdom m)) < maxObjectKeys
     \<and> (\<forall>k v. fmlookup m k = Some v \<longrightarrow> length k \<le> 65535 \<and> encodable v)"
  by (auto simp: fmpred_iff fmlookup_dom_iff)

lemma decodeValueN_marker:
  assumes "pending rd = m # rest"
  shows "decodeValueN (Suc n) rd =
     (if m = MarkerNumber then
        (case decodeNumber (advance 1 rd) of
           (Inl e, rd2) \<Rightarrow> (Inl e, rd2)
         | (Inr x, rd2) \<Rightarrow> (Inr (AMFNumber x), rd2))
      else if m = MarkerBoolean then
        (case decodeBoolean (advance 1 rd) of
           (Inl e, rd2) \<Rightarrow> (Inl e, rd2)
         | (Inr b, rd2) \<Rightarrow> (Inr (AMFBoolean b), rd2))
      else if m = MarkerString then
        (case decodeString (advance 1 rd) of
           (Inl e, rd2) \<Rightarrow> (Inl e, rd2)
         | (Inr s, rd2) \<Rightarrow> (Inr (AMFString s), rd2))
      else if m = MarkerObject then
        (case decodeObjectN n fmempty (advance 1 rd) of
           (Inl e, rd2) \<Rightarrow> (Inl e, rd2)
         | (Inr obj, rd2) \<Rightarrow> (Inr (AMFObject obj), rd2))
      else if m = MarkerNull then (Inr AMFNull, advance 1 rd)
      else if m = MarkerECMAArray then
        (case ReadFull 4 (advance 1 rd) of
           (Inl e, rd2) \<Rightarrow> (Inl e, rd2)
         | (Inr countBuf, rd2) \<Rightarrow>
             (case decodeObjectN n fmempty rd2 of
                (Inl e, rd3) \<Rightarrow> (Inl e, rd3)
              | (Inr obj, rd3) \<Rightarrow> (Inr (AMFObject obj), rd3)))
      else if m = MarkerObjectEnd then (Inl ErrEndObject, advance 1 rd)
      else (Inl (ErrInvalidMarker m), advance 1 rd))"
proof -
  have "ReadFull 1 rd = (Inr [m], advance 1 rd)"
    using ReadFull_prefix [of rd "[m]" rest 1] assms by simp
  then show ?thesis by simp
qed

lemma decodeValueN_encodeValue:
  "encodable v \<Longrightarrow> pending rd = encodeValue v @ rest \<Longrightarrow> length (encodeValue v) \<le> n
    \<Longrightarrow> decodeValueN n rd = (Inr v, advance (length (encodeValue v)) rd)"
proof (induction v arbitrary: n rd rest)
  case (AMFNumber x)
  from AMFNumber.prems(3) obtain n1 where n: "n = Suc n1"
    by (cases n) (auto simp: encodeNumber_def)
  have p: "pending rd = MarkerNumber # (be64 x @ rest)"
    using AMFNumber.prems(2) by (simp add: encodeNumber_def)
  have "ReadFull 8 (advance 1 rd) = (Inr (be64 x), advance 8 (advance 1 rd))"
    by (rule ReadFull_prefix [where rest = rest]) (simp_all add: p)
  then have "decodeNumber (advance 1 rd) = (Inr x, advance 9 rd)"
    by (simp add: decodeNumber_def)
  then show ?case
    unfolding n decodeValueN_marker [OF p] by (simp add: encodeNumber_def)
next
  case (AMFBoolean b)
  from AMFBoolean.prems(3) obtain n1 where n: "n = Suc n1"
    by (cases n) (auto simp: encodeBoolean_def)
  have p: "pending rd = MarkerBoolean # ((if b then 1 else 0) # rest)"
    using AMFBoolean.prems(2) by (simp add: encodeBoolean_def)
  have "ReadFull 1 (advance 1 rd) = (Inr [if b then 1 else 0], advance 1 (advance 1 rd))"
    by (rule ReadFull_prefix [where rest = rest]) (simp_all add: p)
  then have "decodeBoolean (advance 1 rd) = (Inr b, advance 2 rd)"
    by (simp add: decodeBoolean_def numeral_2_eq_2)
  then show ?case
    unfolding n decodeValueN_marker [OF p]
    by (simp add: encodeBoolean_def marker_defs numeral_2_eq_2)
next
  case (AMFString s)
  from AMFString.prems(3) obtain n1 where n: "n = Suc n1"
    by (cases n) (auto simp: encodeString_def)
  have p: "pending rd = MarkerString # (be16 (of_nat (length s)) @ s @ rest)"
    using AMFString.prems(2) by (simp add: encodeString_def)
  have "decodeString (advance 1 rd) = (Inr s, advance (2 + length s) (advance 1 rd))"
    using AMFString.prems(1) by (intro decodeString_encoded [where rest = rest]) (simp_all add: p)
  then show ?case
    unfolding n decodeValueN_marker [OF p] by (simp add: encodeString_def marker_defs)
next
  case (AMFObject m)
  have enc: "encodeValue (AMFObject m) = MarkerObject # entries (pairs m) @ [0, 0, MarkerObjectEnd]"
    by (rule encodeValue_object)
  have len: "length (entries (pairs m)) + 4 \<le> n"
    using AMFObject.prems(3) unfolding enc by simp
  then obtain n1 where n: "n = Suc n1"
    by (cases n) auto
  have p: "pending rd = MarkerObject # (entries (pairs m) @ [0, 0, MarkerObjectEnd] @ rest)"
    using AMFObject.prems(2) unfolding enc by simp
  have e: "int (fcard (fmdom m)) < maxObjectKeys"
    and kv: "\<And>k v. fmlookup m k = Some v \<Longrightarrow> length k \<le> 65535 \<and> encodable v"
    using AMFObject.prems(1) unfolding encodable_object by blast+
  have "decodeObjectN n1 fmempty (advance 1 rd)
          = (Inr (inserted fmempty (pairs m)),
             advance (length (entries (pairs m)) + 3) (advance 1 rd))"
  proof (rule decodeObjectN_entries [where rest = rest])
    fix k v n rest and rd :: Reader
    assume a: "(k, v) \<in> set (pairs m)" "pending rd = encodeValue v @ rest"
      "length (encodeValue v) \<le> n"
    from a(1) have l: "fmlookup m k = Some v" by (simp add: set_pairs)
    then have r: "v \<in> fmran' m" by (rule fmran'I)
    have ev: "encodable v" using kv [OF l] by simp
    show "decodeValueN n rd = (Inr v, advance (length (encodeValue v)) rd)"
      by (rule AMFObject.IH [OF r ev a(2) a(3)])
  next
    fix k v assume "(k, v) \<in> set (pairs m)"
    then show "length k \<le> 65535" using kv [of k v] by (simp add: set_pairs)
  next
    show "int (fcard (fmdom fmempty)) + int (length (pairs m)) < maxObjectKeys"
      using e by (simp add: length_pairs fcard_fempty)
    show "pending (advance 1 rd) = entries (pairs m) @ [0, 0, MarkerObjectEnd] @ rest"
      by (simp add: p)
    show "length (entries (pairs m)) + 3 \<le> n1"
      using len unfolding n by simp
  qed
  then have "decodeObjectN n1 fmempty (advance 1 rd)
          = (Inr m, advance (length (entries (pairs m)) + 4) rd)"
    by (simp add: inserted_pairs add.commute)
  moreover have "length (encodeValue (AMFObject m)) = length (entries (pairs m)) + 4"
    unfolding enc by simp
  ultimately show ?case
    unfolding n decodeValueN_marker [OF p] by (simp add: marker_defs del: encodeValue.simps)
next
  case AMFNull
  from AMFNull.prems(3) obtain n1 where n: "n = Suc n1"
    by (cases n) (auto simp: encodeNull_def)
  have p: "pending rd = MarkerNull # rest"
    using AMFNull.prems(2) by (simp add: encodeNull_def)
  show ?case
    unfolding n decodeValueN_marker [OF p] by (simp add: encodeNull_def marker_defs)
qed

subsection \<open>The loop of \<^verbatim>\<open>DecodeAMF0\<close>\<close>

lemma DecodeAMF0Value_encodeValue:
  assumes "encodable v" and "pending rd = encodeValue v @ rest"
  shows "DecodeAMF0Value rd = (Inr v, advance (length (encodeValue v)) rd)"
  unfolding DecodeAMF0Value_def
  by (rule decodeValueN_encodeValue [OF assms]) (simp add: assms(2))

lemma DecodeAMF0Value_empty: "pending rd = [] \<Longrightarrow> DecodeAMF0Value rd = (Inl EOF, rd)"
  by (simp add: DecodeAMF0Value_def ReadFull_def)

lemma EncodeAMF0_Cons: "EncodeAMF0 (v # vs) = encodeValue v @ EncodeAMF0 vs"
  by (simp add: EncodeAMF0_def)

lemma DecodeAMF0_loop_values:
  assumes "\<forall>v\<in>set vs. encodable v" and "pending rd = EncodeAMF0 vs"
      and "int (length acc) + int (length vs) < maxAMFValues"
  shows "DecodeAMF0_loop acc rd = (Inr (acc @ vs), advance (length (EncodeAMF0 vs)) rd)"
  using assms
proof (induction vs arbitrary: acc rd)
  case Nil
  then have "pending rd = []" by (simp add: EncodeAMF0_def)
  then have "DecodeAMF0Value rd = (Inl EOF, rd)" by (rule DecodeAMF0Value_empty)
  with Nil.prems(3) show ?case
    by (subst DecodeAMF0_loop.simps) (simp add: EncodeAMF0_def)
next
  case (Cons v vs)
  define rd1 where "rd1 = advance (length (encodeValue v)) rd"
  have d: "DecodeAMF0Value rd = (Inr v, rd1)"
    unfolding rd1_def using Cons.prems(1,2)
    by (intro DecodeAMF0Value_encodeValue [where rest = "EncodeAMF0 vs"])
       (simp_all add: EncodeAMF0_Cons)
  have p1: "pending rd1 = EncodeAMF0 vs"
    using Cons.prems(2) by (simp add: rd1_def EncodeAMF0_Cons)
  have rec: "DecodeAMF0_loop (acc @ [v]) rd1
               = (Inr ((acc @ [v]) @ vs), advance (length (EncodeAMF0 vs)) rd1)"
    using Cons.prems(1,3) by (intro Cons.IH [OF _ p1]) simp_all
  have lim: "\<not> maxAMFValues \<le> int (length acc)" using Cons.prems(3) by simp
  have "DecodeAMF0_loop acc rd = (Inr (acc @ v # vs), advance (length (EncodeAMF0 vs)) rd1)"
    using lim by (subst DecodeAMF0_loop.simps) (simp add: d rec)
  then show ?case by (simp add: rd1_def EncodeAMF0_Cons)
qed

lemma DecodeAMF0_loop_limit:
  assumes "\<forall>v\<in>set vs. encodable v" and "pending rd = EncodeAMF0 vs @ rest"
      and "maxAMFValues \<le> int (length acc) + int (length vs)"
  shows "fst (DecodeAMF0_loop acc rd) = Inl ErrValueLimit"
  using assms
proof (induction vs arbitrary: acc rd)
  case Nil
  then show ?case by (subst DecodeAMF0_loop.simps) simp
next
  case (Cons v vs)
  show ?case
  proof (cases "maxAMFValues \<le> int (length acc)")
    case True
    then show ?thesis by (subst DecodeAMF0_loop.simps) simp
  next
    case False
    define rd1 where "rd1 = advance (length (encodeValue v)) rd"
    have d: "DecodeAMF0Value rd = (Inr v, rd1)"
      unfolding rd1_def using Cons.prems(1,2)
      by (intro DecodeAMF0Value_encodeValue [where rest = "EncodeAMF0 vs @ rest"])
         (simp_all add: EncodeAMF0_Cons)
    have p1: "pending rd1 = EncodeAMF0 vs @ rest"
      using Cons.prems(2) by (simp add: rd1_def EncodeAMF0_Cons)
    have rec: "fst (DecodeAMF0_loop (acc @ [v]) rd1) = Inl ErrValueLimit"
      using Cons.prems(1,3) by (intro Cons.IH [OF _ p1]) simp_all
    show ?thesis
      using False by (subst DecodeAMF0_loop.simps) (simp add: d rec)
  qed
qed

subsection \<open>The limits\<close>

lemma decodeObjectN_limit:
  assumes "\<And>k v. (k, v) \<in> set kvs \<Longrightarrow> length k \<le> 65535 \<and> encodable v"
      and "distinct (map fst kvs)"
      and "\<forall>k\<in>set (map fst kvs). k |\<notin>| fmdom obj"
      and "maxObjectKeys \<le> int (fcard (fmdom obj)) + int (length kvs)"
      and "pending rd = entries kvs @ rest"
      and "length (entries kvs) < n"
  shows "fst (decodeObjectN n obj rd) = Inl ErrObjectKeyLimit"
  using assms
proof (induction kvs arbitrary: obj rd n)
  case Nil
  from Nil.prems(6) obtain n1 where n: "n = Suc n1" by (cases n) auto
  from Nil.prems(4) show ?case by (simp add: n)
next
  case (Cons kv kvs)
  obtain k v where kv: "kv = (k, v)" by (cases kv)
  from Cons.prems(6) obtain n1 where n: "n = Suc n1" by (cases n) auto
  show ?case
  proof (cases "maxObjectKeys \<le> int (fcard (fmdom obj))")
    case True
    then show ?thesis by (simp add: n)
  next
    case False
    define rd1 where "rd1 = advance (2 + length k) rd"
    define rd2 where "rd2 = advance (length (encodeValue v)) rd1"
    have kvok: "length k \<le> 65535" "encodable v"
      using Cons.prems(1) [of k v] kv by simp_all
    have pend: "pending rd = be16 (of_nat (length k)) @ k @ (encodeValue v @ entries kvs @ rest)"
      using Cons.prems(5) kv by simp
    have s: "decodeString rd = (Inr k, rd1)"
      unfolding rd1_def by (rule decodeString_encoded [OF kvok(1) pend])
    have p1: "pending rd1 = encodeValue v @ (entries kvs @ rest)"
      using pend by (simp add: rd1_def)
    have v: "decodeValueN n1 rd1 = (Inr v, rd2)"
      unfolding rd2_def
    proof (rule decodeValueN_encodeValue [OF kvok(2) p1])
      show "length (encodeValue v) \<le> n1" using Cons.prems(6) n kv by simp
    qed
    have p2: "pending rd2 = entries kvs @ rest"
      using p1 by (simp add: rd2_def)
    have fresh: "k |\<notin>| fmdom obj" using Cons.prems(3) kv by simp
    have rec: "fst (decodeObjectN n1 (fmupd k v obj) rd2) = Inl ErrObjectKeyLimit"
    proof (rule Cons.IH [OF _ _ _ _ p2])
      show "length k \<le> 65535 \<and> encodable v" if "(k, v) \<in> set kvs" for k v
        using Cons.prems(1) [of k v] that by simp
      show "distinct (map fst kvs)" using Cons.prems(2) by simp
      show "\<forall>k'\<in>set (map fst kvs). k' |\<notin>| fmdom (fmupd k v obj)"
        using Cons.prems(2,3) kv by auto
      show "maxObjectKeys \<le> int (fcard (fmdom (fmupd k v obj))) + int (length kvs)"
        using Cons.prems(4) fresh by (simp add: fcard_finsert_disjoint)
      show "length (entries kvs) < n1"
        using Cons.prems(6) n kv by simp
    qed
    show ?thesis
      using False by (simp add: n s v rec del: decodeValueN.simps)
  qed
qed

end
